theory Spec2Isabelle
  imports Main "HOL-Library.Word"
begin

section \<open>Python values\<close>

text \<open>
  The values that flow through \<^verbatim>\<open>src/local-model/A.py\<close> are the values that
  \<^verbatim>\<open>json.loads\<close> produces: \<^verbatim>\<open>None\<close>, booleans, integers, floats, strings,
  lists and dictionaries with string keys. A float is kept as its 64-bit IEEE pattern.
  A string is a list of characters; a character of the model stands for one code point
  below 256. A dictionary is an association list in insertion order; a dictionary built
  by Python has distinct keys, and lookups read the first entry of a key.
\<close>

datatype json =
    JNull
  | JBool bool
  | JInt int
  | JFloat "64 word"
  | JStr string
  | JList "json list"
  | JDict "(string \<times> json) list"

type_synonym dict = "(string \<times> json) list"

datatype py_error = TypeError | KeyError

subsection \<open>Built-in operations the source relies on\<close>

text \<open>\<^verbatim>\<open>isinstance(v, list)\<close>, \<^verbatim>\<open>isinstance(v, str)\<close>, \<^verbatim>\<open>isinstance(v, bool)\<close>.
  An integer is not an instance of \<^verbatim>\<open>bool\<close>.\<close>

fun is_list :: "json \<Rightarrow> bool" where
  "is_list (JList xs) = True"
| "is_list v = False"

fun is_str :: "json \<Rightarrow> bool" where
  "is_str (JStr s) = True"
| "is_str v = False"

fun is_bool :: "json \<Rightarrow> bool" where
  "is_bool (JBool b) = True"
| "is_bool v = False"

text \<open>\<^verbatim>\<open>str(type(v))\<close>.\<close>

fun type_str :: "json \<Rightarrow> string" where
  "type_str JNull = ''<class 'NoneType'>''"
| "type_str (JBool b) = ''<class 'bool'>''"
| "type_str (JInt n) = ''<class 'int'>''"
| "type_str (JFloat w) = ''<class 'float'>''"
| "type_str (JStr s) = ''<class 'str'>''"
| "type_str (JList xs) = ''<class 'list'>''"
| "type_str (JDict d) = ''<class 'dict'>''"

text \<open>Truth value of an object, as \<^verbatim>\<open>not command\<close> tests it. Both float zeros
  (all bits below the sign bit clear) are false.\<close>

fun truthy :: "json \<Rightarrow> bool" where
  "truthy JNull = False"
| "truthy (JBool b) = b"
| "truthy (JInt n) = (n \<noteq> 0)"
| "truthy (JFloat w) = (take_bit 63 w \<noteq> 0)"
| "truthy (JStr s) = (s \<noteq> [])"
| "truthy (JList xs) = (xs \<noteq> [])"
| "truthy (JDict d) = (d \<noteq> [])"

text \<open>\<^verbatim>\<open>len(v)\<close>: defined on strings, lists and dictionaries, a \<^verbatim>\<open>TypeError\<close>
  elsewhere.\<close>

fun py_len :: "json \<Rightarrow> py_error + nat" where
  "py_len (JStr s) = Inr (length s)"
| "py_len (JList xs) = Inr (length xs)"
| "py_len (JDict d) = Inr (length d)"
| "py_len v = Inl TypeError"

text \<open>\<^verbatim>\<open>s.startswith(b)\<close> and the substring test \<^verbatim>\<open>b in s\<close> on strings.\<close>

fun startswith :: "string \<Rightarrow> string \<Rightarrow> bool" where
  "startswith [] s = True"
| "startswith (b # bs) [] = False"
| "startswith (b # bs) (c # cs) = (b = c \<and> startswith bs cs)"

fun str_contains :: "string \<Rightarrow> string \<Rightarrow> bool" where
  "str_contains b [] = (b = [])"
| "str_contains b (c # cs) = (startswith b (c # cs) \<or> str_contains b cs)"

text \<open>\<^verbatim>\<open>b in v\<close> for a string \<open>b\<close>: a substring test on a string, an element test on
  a list (only an equal string is equal to \<open>b\<close>), a key test on a dictionary, and a
  \<^verbatim>\<open>TypeError\<close> on a value that is not a container.\<close>

fun py_contains :: "string \<Rightarrow> json \<Rightarrow> py_error + bool" where
  "py_contains b (JStr s) = Inr (str_contains b s)"
| "py_contains b (JList xs) = Inr (JStr b \<in> set xs)"
| "py_contains b (JDict d) = Inr (b \<in> set (map fst d))"
| "py_contains b v = Inl TypeError"

text \<open>Whitespace as \<^verbatim>\<open>str.strip()\<close> sees it, for the code points below 256:
  tab to carriage return, the four separators 28 to 31, space, NEL and the no-break
  space.\<close>

definition isspace :: "char \<Rightarrow> bool" where
  "isspace c = ((of_char c :: nat) \<in> {9, 10, 11, 12, 13, 28, 29, 30, 31, 32, 133, 160})"

definition strip :: "string \<Rightarrow> string" where
  "strip s = rev (dropWhile isspace (rev (dropWhile isspace s)))"

subsection \<open>Dictionary operations\<close>

text \<open>\<^verbatim>\<open>k in d\<close>, \<^verbatim>\<open>d.get(k)\<close> (\<^verbatim>\<open>None\<close> when absent), \<^verbatim>\<open>d.get(k, default)\<close>,
  \<^verbatim>\<open>d[k]\<close> (a \<^verbatim>\<open>KeyError\<close> when absent), \<^verbatim>\<open>d[k] = v\<close> (an existing key keeps its
  place, a new key goes last) and \<^verbatim>\<open>d.setdefault(k, v)\<close>.\<close>

definition has_key :: "dict \<Rightarrow> string \<Rightarrow> bool" where
  "has_key d k = (map_of d k \<noteq> None)"

definition dict_get_or :: "dict \<Rightarrow> string \<Rightarrow> json \<Rightarrow> json" where
  "dict_get_or d k dflt = (case map_of d k of None \<Rightarrow> dflt | Some v \<Rightarrow> v)"

definition dict_get :: "dict \<Rightarrow> string \<Rightarrow> json" where
  "dict_get d k = dict_get_or d k JNull"

definition dict_item :: "dict \<Rightarrow> string \<Rightarrow> py_error + json" where
  "dict_item d k = (case map_of d k of None \<Rightarrow> Inl KeyError | Some v \<Rightarrow> Inr v)"

fun dict_set :: "dict \<Rightarrow> string \<Rightarrow> json \<Rightarrow> dict" where
  "dict_set [] k v = [(k, v)]"
| "dict_set ((k', v') # d) k v = (if k' = k then (k, v) # d else (k', v') # dict_set d k v)"

definition setdefault :: "dict \<Rightarrow> string \<Rightarrow> json \<Rightarrow> dict" where
  "setdefault d k v = (if has_key d k then d else dict_set d k v)"

section \<open>The command safety gate\<close>

text \<open>
  \<^verbatim>\<open>
  def is_safe_command(command: str) -> bool:
      banned = ["&&", "|", ";", ">", "<", "$", "`", "rm ", "del ", "shutdown", "format"]
      if not command or len(command) > 200:
          return False
      return not any(b in command for b in banned)
  \<close>
  The argument is whatever the caller passes: \<^verbatim>\<open>process_agent_output\<close> passes
  \<^verbatim>\<open>None\<close> when the decision has no command string.
\<close>

definition banned :: "string list" where
  "banned = [''&&'', ''|'', '';'', ''>'', ''<'', ''$'', ''`'', ''rm '', ''del '',
             ''shutdown'', ''format'']"

fun any_in :: "string list \<Rightarrow> json \<Rightarrow> py_error + bool" where
  "any_in [] command = Inr False"
| "any_in (b # bs) command =
     (case py_contains b command of
        Inl e \<Rightarrow> Inl e
      | Inr hit \<Rightarrow> if hit then Inr True else any_in bs command)"

definition is_safe_command :: "json \<Rightarrow> py_error + bool" where
  "is_safe_command command =
     (if \<not> truthy command then Inr False
      else case py_len command of
        Inl e \<Rightarrow> Inl e
      | Inr n \<Rightarrow>
          if n > 200 then Inr False
          else (case any_in banned command of
                  Inl e \<Rightarrow> Inl e
                | Inr hit \<Rightarrow> Inr (\<not> hit)))"

section \<open>The decision normalizer\<close>

text \<open>
  \<^verbatim>\<open>
  def _coerce_agent_json(agent_json: dict) -> dict:
      if not isinstance(agent_json, dict):
          return {"error": "invalid_json_type", "detail": str(type(agent_json))}
      if "error" in agent_json:
          return agent_json
      schema_keys = {"plan", "action", "expose_to_user", "data", "command"}
      coerced = dict(agent_json)
      if not isinstance(coerced.get("plan"), list):
          coerced["plan"] = []
      action = coerced.get("action")
      if action not in ("answer", "command"):
          cmd = coerced.get("command")
          if isinstance(cmd, str) and cmd.strip():
              coerced["action"] = "command"
          else:
              coerced["action"] = "answer"
      if not isinstance(coerced.get("expose_to_user"), bool):
          coerced["expose_to_user"] = True
      if coerced["action"] == "command":
          if not isinstance(coerced.get("command"), str):
              coerced["command"] = None
          coerced.setdefault("data", None)
      else:
          if "data" not in coerced or coerced.get("data") is None:
              payload = {k: v for k, v in agent_json.items() if k not in schema_keys}
              coerced["data"] = payload if payload else coerced.get("data")
          coerced.setdefault("command", None)
      return coerced
  \<close>
  The model follows the function statement by statement; the name loses its leading
  underscore. All three \<^verbatim>\<open>return\<close> statements return a dictionary, so the model
  returns the dictionary itself. The one subscript \<^verbatim>\<open>coerced["action"]\<close> is a
  \<^verbatim>\<open>KeyError\<close> on a missing key.
\<close>

definition schema_keys :: "string set" where
  "schema_keys = {''plan'', ''action'', ''expose_to_user'', ''data'', ''command''}"

text \<open>\<^verbatim>\<open>if not isinstance(coerced.get("plan"), list): coerced["plan"] = []\<close>\<close>

definition fix_plan :: "dict \<Rightarrow> dict" where
  "fix_plan coerced =
     (if \<not> is_list (dict_get coerced ''plan'') then dict_set coerced ''plan'' (JList [])
      else coerced)"

text \<open>\<^verbatim>\<open>isinstance(cmd, str) and cmd.strip()\<close>\<close>

fun nonblank_str :: "json \<Rightarrow> bool" where
  "nonblank_str (JStr s) = (strip s \<noteq> [])"
| "nonblank_str v = False"

text \<open>The inference of \<^verbatim>\<open>action\<close>, lines 110 to 117.\<close>

definition fix_action :: "dict \<Rightarrow> dict" where
  "fix_action coerced =
     (let action = dict_get coerced ''action'' in
      if action \<noteq> JStr ''answer'' \<and> action \<noteq> JStr ''command'' then
        (let cmd = dict_get coerced ''command'' in
         if nonblank_str cmd then dict_set coerced ''action'' (JStr ''command'')
         else dict_set coerced ''action'' (JStr ''answer''))
      else coerced)"

text \<open>\<^verbatim>\<open>if not isinstance(coerced.get("expose_to_user"), bool): coerced["expose_to_user"] = True\<close>\<close>

definition fix_expose :: "dict \<Rightarrow> dict" where
  "fix_expose coerced =
     (if \<not> is_bool (dict_get coerced ''expose_to_user'')
      then dict_set coerced ''expose_to_user'' (JBool True)
      else coerced)"

text \<open>The command branch, lines 123 to 126.\<close>

definition command_branch :: "dict \<Rightarrow> dict" where
  "command_branch coerced =
     (let coerced = (if \<not> is_str (dict_get coerced ''command'')
                     then dict_set coerced ''command'' JNull else coerced)
      in setdefault coerced ''data'' JNull)"

text \<open>The answer branch, lines 129 to 132; \<open>agent_json\<close> is the original dictionary,
  from which the payload of the keys outside the schema is taken.\<close>

definition answer_branch :: "dict \<Rightarrow> dict \<Rightarrow> dict" where
  "answer_branch agent_json coerced =
     (let coerced =
        (if \<not> has_key coerced ''data'' \<or> dict_get coerced ''data'' = JNull then
           (let payload = filter (\<lambda>(k, v). k \<notin> schema_keys) agent_json in
            dict_set coerced ''data''
              (if payload \<noteq> [] then JDict payload else dict_get coerced ''data''))
         else coerced)
      in setdefault coerced ''command'' JNull)"

definition coerce_agent_json :: "json \<Rightarrow> py_error + dict" where
  "coerce_agent_json agent_json =
     (case agent_json of
        JDict d \<Rightarrow>
          if has_key d ''error'' then Inr d
          else
            (let coerced = fix_expose (fix_action (fix_plan d)) in
             case dict_item coerced ''action'' of
               Inl e \<Rightarrow> Inl e
             | Inr action \<Rightarrow>
                 if action = JStr ''command'' then Inr (command_branch coerced)
                 else Inr (answer_branch d coerced))
      | _ \<Rightarrow>
          Inr [(''error'', JStr ''invalid_json_type''),
               (''detail'', JStr (type_str agent_json))])"

section \<open>The command runner\<close>

text \<open>
  \<^verbatim>\<open>
  def execute_command(command: str) -> dict:
      if not is_safe_command(command):
          return {"status": "rejected", "reason": "unsafe command"}
      if not isinstance(command, str) or not command.strip():
          return {"status": "rejected", "reason": "missing command"}
      try:
          result = subprocess.run(command, shell=True, capture_output=True, text=True)
          return {"status": "executed", "exit_code": result.returncode,
                  "stdout": result.stdout, "stderr": result.stderr}
      except Exception as e:
          return {"status": "error", "error": str(e)}
  \<close>
  \<^verbatim>\<open>subprocess.run\<close> is the process-execution interface: given the command line it
  either raises (\<open>Inl\<close> the message) or completes with an exit code and the two captured
  streams. \<^verbatim>\<open>execute_command\<close> returns its result dictionary together with the
  list of command lines it handed to \<^verbatim>\<open>subprocess.run\<close>.
\<close>

type_synonym runner = "string \<Rightarrow> string + (int \<times> string \<times> string)"

definition rejected :: "string \<Rightarrow> dict" where
  "rejected reason = [(''status'', JStr ''rejected''), (''reason'', JStr reason)]"

definition run_process :: "runner \<Rightarrow> string \<Rightarrow> dict" where
  "run_process run s =
     (case run s of
        Inr (code, out, err) \<Rightarrow>
          [(''status'', JStr ''executed''), (''exit_code'', JInt code),
           (''stdout'', JStr out), (''stderr'', JStr err)]
      | Inl msg \<Rightarrow> [(''status'', JStr ''error''), (''error'', JStr msg)])"

definition execute_command :: "runner \<Rightarrow> json \<Rightarrow> py_error + (dict \<times> string list)" where
  "execute_command run command =
     (case is_safe_command command of
        Inl e \<Rightarrow> Inl e
      | Inr safe \<Rightarrow>
          if \<not> safe then Inr (rejected ''unsafe command'', [])
          else
            (case command of
               JStr s \<Rightarrow>
                 if strip s = [] then Inr (rejected ''missing command'', [])
                 else Inr (run_process run s, [s])
             | _ \<Rightarrow> Inr (rejected ''missing command'', [])))"

section \<open>Routing the decision\<close>

text \<open>
  \<^verbatim>\<open>
  def process_agent_output(agent_json: dict) -> dict:
      agent_json = _coerce_agent_json(agent_json)
      if "error" in agent_json:
          return agent_json
      action = agent_json.get("action")
      expose = agent_json.get("expose_to_user", False)
      result = {"plan": agent_json["plan"], "expose_to_user": expose}
      if action == "command":
          cmd = agent_json.get("command")
          result["execution"] = execute_command(cmd)
      elif action == "answer":
          result["data"] = agent_json.get("data")
      return result
  \<close>
  The envelope is returned together with the command lines that were launched.
\<close>

definition process_agent_output :: "runner \<Rightarrow> json \<Rightarrow> py_error + (dict \<times> string list)" where
  "process_agent_output run agent_json =
     (case coerce_agent_json agent_json of
        Inl e \<Rightarrow> Inl e
      | Inr aj \<Rightarrow>
          if has_key aj ''error'' then Inr (aj, [])
          else
            (let action = dict_get aj ''action'';
                 expose = dict_get_or aj ''expose_to_user'' (JBool False)
             in case dict_item aj ''plan'' of
                  Inl e \<Rightarrow> Inl e
                | Inr plan \<Rightarrow>
                    (let result = [(''plan'', plan), (''expose_to_user'', expose)] in
                     if action = JStr ''command'' then
                       (case execute_command run (dict_get aj ''command'') of
                          Inl e \<Rightarrow> Inl e
                        | Inr (execution, launched) \<Rightarrow>
                            Inr (dict_set result ''execution'' (JDict execution), launched))
                     else if action = JStr ''answer'' then
                       Inr (dict_set result ''data'' (dict_get aj ''data''), [])
                     else Inr (result, []))))"

section \<open>Extraction of a structured value from text\<close>

text \<open>
  \<^verbatim>\<open>
  def extract_json_from_text(s: str):
      starts = [m.start() for m in re.finditer(r"[\{\[]", s)]
      pairs = {"{": "}", "[": "]"}
      for start in starts:
          stack = []
          for i in range(start, len(s)):
              c = s[i]
              if c in "{[":
                  stack.append(pairs[c])
              elif stack and c == stack[-1]:
                  stack.pop()
                  if not stack:
                      try:
                          return json.loads(s[start:i+1])
                      except Exception:
                          break
      return None
  \<close>
  \<^verbatim>\<open>json.loads\<close> is the parser of the standard library: on a text it either raises
  (\<open>Inl\<close> the message of the exception) or returns the parsed value.
\<close>

type_synonym loader = "string \<Rightarrow> string + json"

text \<open>\<^verbatim>\<open>s[a:b]\<close> for \<open>a \<le> b\<close>.\<close>

definition substr :: "string \<Rightarrow> nat \<Rightarrow> nat \<Rightarrow> string" where
  "substr s a b = take (b - a) (drop a s)"

text \<open>The positions matched by \<^verbatim>\<open>re.finditer(r"[\{\[]", s)\<close>.\<close>

definition starts :: "string \<Rightarrow> nat list" where
  "starts s = filter (\<lambda>i. s ! i \<in> set ''{['') [0..<length s]"

text \<open>The dictionary \<^verbatim>\<open>pairs\<close>; it is read at an opening bracket only.\<close>

definition pairs :: "char \<Rightarrow> char" where
  "pairs c = (if c = CHR ''{'' then CHR ''}'' else CHR '']'')"

text \<open>
  The inner loop \<^verbatim>\<open>for i in range(start, len(s))\<close> ends in one of three ways: it
  returns the parsed span, it breaks because the span does not parse, or it runs out of
  characters. The stack is a Python list: the top is its last element.
\<close>

datatype scan_result = Return json | Break | Exhausted

fun scan :: "loader \<Rightarrow> string \<Rightarrow> nat \<Rightarrow> char list \<Rightarrow> nat list \<Rightarrow> scan_result" where
  "scan loads s start stack [] = Exhausted"
| "scan loads s start stack (i # is) =
     (let c = s ! i in
      if c \<in> set ''{['' then scan loads s start (stack @ [pairs c]) is
      else if stack \<noteq> [] \<and> c = last stack then
        (let stack = butlast stack in
         if stack = [] then
           (case loads (substr s start (i + 1)) of
              Inr v \<Rightarrow> Return v
            | Inl e \<Rightarrow> Break)
         else scan loads s start stack is)
      else scan loads s start stack is)"

text \<open>The outer loop over the start positions, and the final \<^verbatim>\<open>return None\<close>.\<close>

fun try_starts :: "loader \<Rightarrow> string \<Rightarrow> nat list \<Rightarrow> json" where
  "try_starts loads s [] = JNull"
| "try_starts loads s (start # rest) =
     (case scan loads s start [] [start..<length s] of
        Return v \<Rightarrow> v
      | Break \<Rightarrow> try_starts loads s rest
      | Exhausted \<Rightarrow> try_starts loads s rest)"

definition extract_json_from_text :: "loader \<Rightarrow> string \<Rightarrow> json" where
  "extract_json_from_text loads s = try_starts loads s (starts s)"

section \<open>The retry loop\<close>

text \<open>
  \<^verbatim>\<open>
  def ask_model(prompt: str, max_retries: int = 3) -> dict:
      last_error = None
      for _ in range(max_retries):
          out = llm.create_chat_completion(messages=[...], temperature=0.0, stream=False)
          raw = out["choices"][0]["message"]["content"]
          try:
              return json.loads(raw)
          except Exception as e:
              extracted = extract_json_from_text(raw)
              if extracted is not None:
                  return extracted
              last_error = str(e)
      return {"error": "invalid_json", "detail": last_error}
  \<close>
  The generator is called with the same messages in every round; \<open>llm k\<close> is the text
  it answers to the call number \<open>k\<close>, counted from 0. \<^verbatim>\<open>ask_model\<close> returns its
  result together with the number of calls it made. The callers in the source use the
  default bound, 3.
\<close>

definition invalid_json :: "json \<Rightarrow> json" where
  "invalid_json last_error =
     JDict [(''error'', JStr ''invalid_json''), (''detail'', last_error)]"

fun ask_loop :: "loader \<Rightarrow> (nat \<Rightarrow> string) \<Rightarrow> nat \<Rightarrow> nat list \<Rightarrow> json \<Rightarrow> json \<times> nat" where
  "ask_loop loads llm calls [] last_error = (invalid_json last_error, calls)"
| "ask_loop loads llm calls (r # rounds) last_error =
     (let raw = llm calls in
      case loads raw of
        Inr v \<Rightarrow> (v, Suc calls)
      | Inl e \<Rightarrow>
          (let extracted = extract_json_from_text loads raw in
           if extracted \<noteq> JNull then (extracted, Suc calls)
           else ask_loop loads llm (Suc calls) rounds (JStr e)))"

definition ask_model :: "loader \<Rightarrow> (nat \<Rightarrow> string) \<Rightarrow> nat \<Rightarrow> json \<times> nat" where
  "ask_model loads llm max_retries = ask_loop loads llm 0 [0..<max_retries] JNull"

section \<open>Balanced spans, as the design describes them\<close>

text \<open>
  The design walks forward from an opening bracket with a stack of expected closing
  characters: an opener pushes its closer, a character equal to the top of the stack
  pops it, every other character is passed over. The span from the start to the first
  position at which the stack is empty is the balanced span of that start. Here the
  stack is a list whose head is the top, and \<open>stack_after t\<close> is the stack once the
  text \<open>t\<close> has been walked.
\<close>

definition stack_step :: "char list \<Rightarrow> char \<Rightarrow> char list" where
  "stack_step st c =
     (if c = CHR ''{'' then CHR ''}'' # st
      else if c = CHR ''['' then CHR '']'' # st
      else (case st of [] \<Rightarrow> [] | x # st' \<Rightarrow> if c = x then st' else st))"

definition stack_after :: "string \<Rightarrow> char list" where
  "stack_after t = foldl stack_step [] t"

text \<open>\<open>balanced_span s a b\<close>: the characters of \<open>s\<close> from position \<open>a\<close> to position
  \<open>b\<close>, both included, are the balanced span that starts at \<open>a\<close>.\<close>

definition balanced_span :: "string \<Rightarrow> nat \<Rightarrow> nat \<Rightarrow> bool" where
  "balanced_span s a b =
     (a \<le> b \<and> b < length s \<and> (s ! a = CHR ''{'' \<or> s ! a = CHR ''['') \<and>
      stack_after (substr s a (b + 1)) = [] \<and>
      (\<forall>j \<in> {a..<b}. stack_after (substr s a (j + 1)) \<noteq> []))"

section \<open>Notions used to state the properties of the normalizer\<close>

text \<open>\<^verbatim>\<open>isinstance(v, dict)\<close>.\<close>

fun is_dict :: "json \<Rightarrow> bool" where
  "is_dict (JDict d) = True"
| "is_dict v = False"

text \<open>The three repairs of \<^verbatim>\<open>plan\<close>, \<^verbatim>\<open>action\<close> and \<^verbatim>\<open>expose_to_user\<close>, in the
  order of the source, and the entries of a dictionary outside the five schema keys.\<close>

definition pre :: "dict \<Rightarrow> dict" where
  "pre m = fix_expose (fix_action (fix_plan m))"

definition payload_of :: "dict \<Rightarrow> dict" where
  "payload_of m = filter (\<lambda>(k, v). k \<notin> schema_keys) m"

text \<open>A fully populated canonical decision: \<^verbatim>\<open>plan\<close> is a list, \<^verbatim>\<open>action\<close> is one
  of the two strings, \<^verbatim>\<open>expose_to_user\<close> is a boolean, and the keys \<^verbatim>\<open>data\<close> and
  \<^verbatim>\<open>command\<close> are both present.\<close>

definition canonical :: "dict \<Rightarrow> bool" where
  "canonical d =
     ((\<exists>xs. map_of d ''plan'' = Some (JList xs)) \<and>
      (map_of d ''action'' = Some (JStr ''answer'') \<or>
       map_of d ''action'' = Some (JStr ''command'')) \<and>
      (\<exists>b. map_of d ''expose_to_user'' = Some (JBool b)) \<and>
      map_of d ''data'' \<noteq> None \<and>
      map_of d ''command'' \<noteq> None)"

section \<open>Notions used to state the properties of the extractor and of the retry loop\<close>

text \<open>One round of the inner loop on the Python stack, and what the loop does with a
  span once the stack is empty: return the parsed value, or break.\<close>

definition py_step :: "char list \<Rightarrow> char \<Rightarrow> char list" where
  "py_step stack c =
     (if c \<in> set ''{['' then stack @ [pairs c]
      else if stack \<noteq> [] \<and> c = last stack then butlast stack
      else stack)"

definition outcome :: "loader \<Rightarrow> string \<Rightarrow> scan_result" where
  "outcome loads t = (case loads t of Inr v \<Rightarrow> Return v | Inl e \<Rightarrow> Break)"

text \<open>A text parses when \<^verbatim>\<open>json.loads\<close> returns on it.\<close>

definition parses :: "loader \<Rightarrow> string \<Rightarrow> bool" where
  "parses loads t = (case loads t of Inr v \<Rightarrow> True | Inl e \<Rightarrow> False)"

text \<open>A stand-in for the parser in the examples: it accepts the three texts \<^verbatim>\<open>[]\<close>,
  \<^verbatim>\<open>{}\<close> and \<^verbatim>\<open>[[]]\<close> and raises on every other text.\<close>

definition bracket_loads :: loader where
  "bracket_loads t =
     (if t = ''[]'' then Inr (JList [])
      else if t = ''{}'' then Inr (JDict [])
      else if t = ''[[]]'' then Inr (JList [JList []])
      else Inl ''Expecting value'')"

text \<open>An attempt of the retry loop succeeds when its raw text parses directly or the
  extractor finds a value in it; \<open>value_of\<close> is the value it then yields.\<close>

definition succeeds :: "loader \<Rightarrow> string \<Rightarrow> bool" where
  "succeeds loads raw = (parses loads raw \<or> extract_json_from_text loads raw \<noteq> JNull)"

definition value_of :: "loader \<Rightarrow> string \<Rightarrow> json" where
  "value_of loads raw =
     (case loads raw of Inr v \<Rightarrow> v | Inl e \<Rightarrow> extract_json_from_text loads raw)"

section \<open>Properties of the safety gate\<close>

lemma startswith_iff: "startswith b s \<longleftrightarrow> (\<exists>q. s = b @ q)"
  by (induction b s rule: startswith.induct) auto

lemma str_contains_iff: "str_contains b s \<longleftrightarrow> (\<exists>p q. s = p @ b @ q)"
proof (induction s)
  case Nil
  then show ?case by simp
next
  case (Cons c cs)
  show ?case
  proof
    assume "str_contains b (c # cs)"
    then consider "startswith b (c # cs)" | "str_contains b cs" by auto
    then show "\<exists>p q. c # cs = p @ b @ q"
    proof cases
      case 1
      then obtain q where "c # cs = b @ q" using startswith_iff by blast
      then have "c # cs = [] @ b @ q" by simp
      then show ?thesis by blast
    next
      case 2
      then obtain p q where "cs = p @ b @ q" using Cons.IH by blast
      then have "c # cs = (c # p) @ b @ q" by simp
      then show ?thesis by blast
    qed
  next
    assume "\<exists>p q. c # cs = p @ b @ q"
    then obtain p q where pq: "c # cs = p @ b @ q" by blast
    show "str_contains b (c # cs)"
    proof (cases p)
      case Nil
      with pq have "startswith b (c # cs)" using startswith_iff by auto
      then show ?thesis by simp
    next
      case (Cons x p')
      with pq have "cs = p' @ b @ q" by simp
      then have "str_contains b cs" using Cons.IH by blast
      then show ?thesis by simp
    qed
  qed
qed

lemma any_in_str: "any_in bs (JStr s) = Inr (\<exists>b \<in> set bs. str_contains b s)"
  by (induction bs) auto

text \<open>On a string the gate is a conjunction of three tests.\<close>

lemma is_safe_command_str:
  "is_safe_command (JStr s) =
     Inr (s \<noteq> [] \<and> length s \<le> 200 \<and> \<not> (\<exists>b \<in> set banned. str_contains b s))"
  by (auto simp: is_safe_command_def any_in_str)

text \<open>
  Claim C4. The gate answers false for an absent command (\<^verbatim>\<open>None\<close>), and for every
  command string that is empty, or longer than 200 characters, or that has one of
  \<^verbatim>\<open>;\<close>, \<^verbatim>\<open>|\<close>, \<^verbatim>\<open>&&\<close>, \<^verbatim>\<open>>\<close>, \<^verbatim>\<open><\<close>, the backtick or \<^verbatim>\<open>$\<close> as a
  substring (\<open>s = p @ b @ q\<close>). It answers true for \<^verbatim>\<open>dir\<close> and \<^verbatim>\<open>echo hello\<close>.
\<close>

theorem is_safe_command_rejects:
  "is_safe_command JNull = Inr False \<and>
   (s = [] \<or> 200 < length s \<or>
    (\<exists>b \<in> {'';'', ''|'', ''&&'', ''>'', ''<'', ''`'', ''$''}. \<exists>p q. s = p @ b @ q)
      \<longrightarrow> is_safe_command (JStr s) = Inr False) \<and>
   is_safe_command (JStr ''dir'') = Inr True \<and>
   is_safe_command (JStr ''echo hello'') = Inr True"
proof (intro conjI impI)
  show "is_safe_command JNull = Inr False" by (simp add: is_safe_command_def)
next
  assume h: "s = [] \<or> 200 < length s \<or>
    (\<exists>b \<in> {'';'', ''|'', ''&&'', ''>'', ''<'', ''`'', ''$''}. \<exists>p q. s = p @ b @ q)"
  have sub: "{'';'', ''|'', ''&&'', ''>'', ''<'', ''`'', ''$''} \<subseteq> set banned"
    by (simp add: banned_def)
  from h consider "s = []" | "200 < length s"
    | b where "b \<in> set banned" "\<exists>p q. s = p @ b @ q"
    using sub by blast
  then show "is_safe_command (JStr s) = Inr False"
  proof cases
    case 3
    then have "str_contains b s" by (simp add: str_contains_iff)
    with 3 show ?thesis unfolding is_safe_command_str by blast
  qed (simp_all add: is_safe_command_str)
next
  show "is_safe_command (JStr ''dir'') = Inr True"
    by (simp add: is_safe_command_str banned_def)
next
  show "is_safe_command (JStr ''echo hello'') = Inr True"
    by (simp add: is_safe_command_str banned_def)
qed

text \<open>The theorem at a command with a separator, at the empty command and at a command
  of 201 characters.\<close>

theorem is_safe_command_rejects_witness:
  "is_safe_command (JStr ''dir; rm -rf /'') = Inr False \<and>
   is_safe_command (JStr []) = Inr False \<and>
   is_safe_command (JStr (replicate 201 (CHR ''a''))) = Inr False"
proof -
  have a: "''dir; rm -rf /'' = ''dir'' @ '';'' @ '' rm -rf /''" by simp
  have "\<exists>b \<in> {'';'', ''|'', ''&&'', ''>'', ''<'', ''`'', ''$''}.
          \<exists>p q. ''dir; rm -rf /'' = p @ b @ q"
    using a by blast
  then have 1: "is_safe_command (JStr ''dir; rm -rf /'') = Inr False"
    using is_safe_command_rejects [of "''dir; rm -rf /''"] by blast
  have 2: "is_safe_command (JStr []) = Inr False"
    using is_safe_command_rejects [of "[]"] by blast
  have "200 < length (replicate 201 (CHR ''a''))" by simp
  then have 3: "is_safe_command (JStr (replicate 201 (CHR ''a''))) = Inr False"
    using is_safe_command_rejects [of "replicate 201 (CHR ''a'')"] by blast
  from 1 2 3 show ?thesis by blast
qed

text \<open>
  Claim C9. The denylist is matched as exact, case-sensitive substrings: the gate
  accepts \<^verbatim>\<open>rm-rf /\<close> (no space after \<^verbatim>\<open>rm\<close>), \<^verbatim>\<open>RM -rf /\<close> and \<^verbatim>\<open>DEL file\<close>,
  while it rejects their lower-case forms \<^verbatim>\<open>rm -rf /\<close> and \<^verbatim>\<open>del file\<close>, which
  contain the blocked substrings \<^verbatim>\<open>rm \<close> and \<^verbatim>\<open>del \<close>.
\<close>

theorem is_safe_command_case_sensitive:
  "is_safe_command (JStr ''rm-rf /'') = Inr True \<and>
   is_safe_command (JStr ''RM -rf /'') = Inr True \<and>
   is_safe_command (JStr ''DEL file'') = Inr True \<and>
   is_safe_command (JStr ''rm -rf /'') = Inr False \<and>
   is_safe_command (JStr ''del file'') = Inr False"
  by (simp add: is_safe_command_str banned_def)

section \<open>Properties of the normalizer\<close>

lemma map_of_dict_set: "map_of (dict_set d k v) = (map_of d)(k \<mapsto> v)"
  by (induction d) (auto simp: fun_eq_iff)

lemma dict_set_same: "map_of d k = Some v \<Longrightarrow> dict_set d k v = d"
  by (induction d) (auto split: if_splits)

lemma map_of_setdefault:
  "map_of (setdefault d k v) = (if map_of d k = None then (map_of d)(k \<mapsto> v) else map_of d)"
  by (simp add: setdefault_def has_key_def map_of_dict_set)

lemma setdefault_same: "map_of d k \<noteq> None \<Longrightarrow> setdefault d k v = d"
  by (simp add: setdefault_def has_key_def)

lemma map_of_fix_plan:
  "map_of (fix_plan d) = (if is_list (dict_get d ''plan'') then map_of d else (map_of d)(''plan'' \<mapsto> JList []))"
  by (simp add: fix_plan_def map_of_dict_set)

lemma all_dropWhile: "(\<forall>x \<in> set (dropWhile P s). P x) \<longleftrightarrow> (\<forall>x \<in> set s. P x)"
  by (induction s) auto

lemma strip_nonempty_iff: "strip s \<noteq> [] \<longleftrightarrow> (\<exists>c \<in> set s. \<not> isspace c)"
  using all_dropWhile [of isspace s] by (auto simp: strip_def dropWhile_eq_Nil_conv)

lemma map_of_fix_action:
  "map_of (fix_action d) =
     (if dict_get d ''action'' = JStr ''answer'' \<or> dict_get d ''action'' = JStr ''command''
      then map_of d
      else (map_of d)(''action'' \<mapsto>
             (if nonblank_str (dict_get d ''command'') then JStr ''command'' else JStr ''answer'')))"
  by (simp add: fix_action_def Let_def map_of_dict_set)

lemma map_of_fix_expose:
  "map_of (fix_expose d) =
     (if is_bool (dict_get d ''expose_to_user'') then map_of d
      else (map_of d)(''expose_to_user'' \<mapsto> JBool True))"
  by (simp add: fix_expose_def map_of_dict_set)

lemma payload_dict_set:
  "k \<in> schema_keys \<Longrightarrow>
   filter (\<lambda>(k, v). k \<notin> schema_keys) (dict_set d k v) = filter (\<lambda>(k, v). k \<notin> schema_keys) d"
  by (induction d k v rule: dict_set.induct) auto

lemma payload_setdefault:
  "k \<in> schema_keys \<Longrightarrow>
   filter (\<lambda>(k, v). k \<notin> schema_keys) (setdefault d k v) = filter (\<lambda>(k, v). k \<notin> schema_keys) d"
  by (simp add: setdefault_def payload_dict_set)

lemmas dict_defs = dict_get_def dict_get_or_def has_key_def dict_item_def

lemma map_of_pre_other:
  "k \<notin> {''plan'', ''action'', ''expose_to_user''} \<Longrightarrow> map_of (pre m) k = map_of m k"
  by (simp add: pre_def map_of_fix_plan map_of_fix_action map_of_fix_expose)

lemma pre_plan: "\<exists>xs. map_of (pre m) ''plan'' = Some (JList xs)"
  unfolding pre_def map_of_fix_plan map_of_fix_action map_of_fix_expose dict_defs
  by (cases "map_of m ''plan''"; cases "the (map_of m ''plan'')") (auto) 

lemma pre_action:
  "map_of (pre m) ''action'' =
     (if map_of m ''action'' = Some (JStr ''answer'') \<or> map_of m ''action'' = Some (JStr ''command'')
      then map_of m ''action''
      else Some (if nonblank_str (dict_get m ''command'') then JStr ''command'' else JStr ''answer''))"
  unfolding pre_def map_of_fix_plan map_of_fix_action map_of_fix_expose dict_defs
  by (auto split: option.splits)

lemma pre_expose: "\<exists>b. map_of (pre m) ''expose_to_user'' = Some (JBool b)"
  unfolding pre_def map_of_fix_plan map_of_fix_action map_of_fix_expose dict_defs
  by (cases "map_of m ''expose_to_user''"; cases "the (map_of m ''expose_to_user'')") (auto)

lemma schema_mem:
  "''plan'' \<in> schema_keys" "''action'' \<in> schema_keys" "''expose_to_user'' \<in> schema_keys"
  "''data'' \<in> schema_keys" "''command'' \<in> schema_keys" "''error'' \<notin> schema_keys"
  by (simp_all add: schema_keys_def)

lemma payload_pre:
  "filter (\<lambda>(k, v). k \<notin> schema_keys) (pre m) = filter (\<lambda>(k, v). k \<notin> schema_keys) m"
  by (simp add: pre_def fix_plan_def fix_action_def fix_expose_def Let_def payload_dict_set schema_mem)

lemma coerce_dict:
  "coerce_agent_json (JDict m) =
     (if has_key m ''error'' then Inr m
      else if dict_get (pre m) ''action'' = JStr ''command'' then Inr (command_branch (pre m))
      else Inr (answer_branch m (pre m)))"
  using pre_action [of m]
  by (auto simp: coerce_agent_json_def Let_def pre_def [symmetric] dict_defs split: option.splits)

lemma map_of_command_branch:
  "map_of (command_branch c) =
     (let f = (if is_str (dict_get c ''command'') then map_of c
               else (map_of c)(''command'' \<mapsto> JNull))
      in if f ''data'' = None then f(''data'' \<mapsto> JNull) else f)"
  by (simp add: command_branch_def Let_def map_of_setdefault map_of_dict_set)

lemma map_of_answer_branch:
  "map_of (answer_branch m c) =
     (let f = (if map_of c ''data'' = None \<or> map_of c ''data'' = Some JNull
               then (map_of c)(''data'' \<mapsto>
                      (if payload_of m \<noteq> [] then JDict (payload_of m) else JNull))
               else map_of c)
      in if f ''command'' = None then f(''command'' \<mapsto> JNull) else f)"
  by (auto simp: answer_branch_def Let_def map_of_setdefault map_of_dict_set dict_defs
        payload_of_def split: option.splits)

lemma command_str_cases:
  "is_str (dict_get c ''command'') \<longleftrightarrow> (\<exists>s. map_of c ''command'' = Some (JStr s))"
  by (cases "map_of c ''command''"; cases "the (map_of c ''command'')") (auto simp: dict_defs)

lemma canonical_command_branch:
  assumes "dict_get (pre m) ''action'' = JStr ''command''"
  shows "canonical (command_branch (pre m))"
proof -
  have a: "map_of (pre m) ''action'' = Some (JStr ''command'')"
    using assms pre_action [of m] by (auto simp: dict_defs split: if_splits)
  from pre_plan [of m] obtain xs where p: "map_of (pre m) ''plan'' = Some (JList xs)" by blast
  from pre_expose [of m] obtain b where e: "map_of (pre m) ''expose_to_user'' = Some (JBool b)"
    by blast
  show ?thesis
    unfolding canonical_def map_of_command_branch Let_def
    using a p e by (auto simp: command_str_cases)
qed

lemma canonical_answer_branch:
  assumes "dict_get (pre m) ''action'' \<noteq> JStr ''command''"
  shows "canonical (answer_branch m (pre m))"
proof -
  have a: "map_of (pre m) ''action'' = Some (JStr ''answer'')"
    using assms pre_action [of m] by (auto simp: dict_defs split: if_splits)
  from pre_plan [of m] obtain xs where p: "map_of (pre m) ''plan'' = Some (JList xs)" by blast
  from pre_expose [of m] obtain b where e: "map_of (pre m) ''expose_to_user'' = Some (JBool b)"
    by blast
  show ?thesis
    unfolding canonical_def map_of_answer_branch Let_def
    using a p e by auto
qed

text \<open>
  Claim C6. The normalizer is total: on every input it returns a dictionary and does not
  raise. An input that is not a dictionary gives the error \<^verbatim>\<open>invalid_json_type\<close> with
  the type of the input as detail; a dictionary with an \<^verbatim>\<open>error\<close> key is returned as
  it is; every other dictionary gives a fully populated canonical decision.
\<close>

theorem coerce_agent_json_total:
  "(\<exists>d. coerce_agent_json x = Inr d) \<and>
   (\<not> is_dict x \<longrightarrow>
      coerce_agent_json x =
        Inr [(''error'', JStr ''invalid_json_type''), (''detail'', JStr (type_str x))]) \<and>
   (has_key m ''error'' \<longrightarrow> coerce_agent_json (JDict m) = Inr m) \<and>
   (\<not> has_key m ''error'' \<longrightarrow> (\<exists>d. coerce_agent_json (JDict m) = Inr d \<and> canonical d))"
proof (intro conjI impI)
  show "\<exists>d. coerce_agent_json x = Inr d"
    by (cases x) (simp_all add: coerce_dict, simp_all add: coerce_agent_json_def)
next
  assume "\<not> is_dict x"
  then show "coerce_agent_json x =
        Inr [(''error'', JStr ''invalid_json_type''), (''detail'', JStr (type_str x))]"
    by (cases x) (simp_all add: coerce_agent_json_def)
next
  assume "has_key m ''error''"
  then show "coerce_agent_json (JDict m) = Inr m" by (simp add: coerce_dict)
next
  assume "\<not> has_key m ''error''"
  then show "\<exists>d. coerce_agent_json (JDict m) = Inr d \<and> canonical d"
    using canonical_command_branch [of m] canonical_answer_branch [of m]
    by (simp add: coerce_dict)
qed

text \<open>The theorem at a list, at a dictionary that carries an error and at a dictionary
  with one key outside the schema.\<close>

theorem coerce_agent_json_total_witness:
  "coerce_agent_json (JList []) =
     Inr [(''error'', JStr ''invalid_json_type''), (''detail'', JStr ''<class 'list'>'')] \<and>
   coerce_agent_json (JDict [(''error'', JStr ''unknown'')]) = Inr [(''error'', JStr ''unknown'')] \<and>
   (\<exists>d. coerce_agent_json (JDict [(''note'', JInt 1)]) = Inr d \<and> canonical d)"
proof -
  have 1: "\<not> is_dict (JList [])" by simp
  have 2: "has_key [(''error'', JStr ''unknown'')] ''error''" by (simp add: has_key_def)
  have 3: "\<not> has_key [(''note'', JInt 1)] ''error''" by (simp add: has_key_def)
  show ?thesis
    using 1 2 3 coerce_agent_json_total [of "JList []" "[(''error'', JStr ''unknown'')]"]
      coerce_agent_json_total [of "JNull" "[(''note'', JInt 1)]"]
    by simp
qed

lemma nonblank_str_iff:
  "nonblank_str (dict_get m ''command'') \<longleftrightarrow>
     (\<exists>s. map_of m ''command'' = Some (JStr s) \<and> (\<exists>c \<in> set s. \<not> isspace c))"
  by (cases "map_of m ''command''"; cases "the (map_of m ''command'')")
     (auto simp: dict_defs strip_nonempty_iff)

lemma coerce_action:
  assumes "\<not> has_key m ''error''" "coerce_agent_json (JDict m) = Inr d"
  shows "map_of d ''action'' = map_of (pre m) ''action''"
  using assms
  by (auto simp: coerce_dict map_of_command_branch map_of_answer_branch Let_def
        split: if_splits)

text \<open>
  Claim C8 speaks of every mapping whose \<^verbatim>\<open>action\<close> is absent or invalid. A mapping
  with an \<^verbatim>\<open>error\<close> key is returned as it is, before any inference:
  \<^verbatim>\<open>{"error": "unknown", "command": "dir"}\<close> has no action and a command that is
  not blank, and it comes back without an \<^verbatim>\<open>action\<close> key.
\<close>

theorem action_inference_counterexample:
  "map_of [(''error'', JStr ''unknown''), (''command'', JStr ''dir'')] ''action'' = None \<and>
   nonblank_str (dict_get [(''error'', JStr ''unknown''), (''command'', JStr ''dir'')] ''command'') \<and>
   coerce_agent_json (JDict [(''error'', JStr ''unknown''), (''command'', JStr ''dir'')]) =
     Inr [(''error'', JStr ''unknown''), (''command'', JStr ''dir'')] \<and>
   map_of [(''error'', JStr ''unknown''), (''command'', JStr ''dir'')] ''action''
     \<noteq> Some (JStr ''command'')"
  by (simp add: coerce_agent_json_def dict_defs strip_def isspace_def)

text \<open>
  Claim C8, amended. Let a mapping have no \<^verbatim>\<open>error\<close> key and let its \<^verbatim>\<open>action\<close>
  be absent, of a wrong type, or a string other than \<^verbatim>\<open>answer\<close> and \<^verbatim>\<open>command\<close>.
  Then the normalized \<^verbatim>\<open>action\<close> is \<^verbatim>\<open>command\<close> exactly when \<^verbatim>\<open>command\<close> is a
  string with a character that is not whitespace, and \<^verbatim>\<open>answer\<close> otherwise. In
  particular \<^verbatim>\<open>{"command": "dir"}\<close> gives \<^verbatim>\<open>command\<close> and \<^verbatim>\<open>{}\<close> gives
  \<^verbatim>\<open>answer\<close>.
\<close>

theorem action_inference:
  "(\<not> has_key m ''error'' \<and>
    map_of m ''action'' \<noteq> Some (JStr ''answer'') \<and>
    map_of m ''action'' \<noteq> Some (JStr ''command'') \<longrightarrow>
      (\<exists>d. coerce_agent_json (JDict m) = Inr d \<and>
           map_of d ''action'' =
             Some (JStr (if \<exists>s. map_of m ''command'' = Some (JStr s) \<and>
                               (\<exists>c \<in> set s. \<not> isspace c)
                         then ''command'' else ''answer'')))) \<and>
   (\<exists>d. coerce_agent_json (JDict [(''command'', JStr ''dir'')]) = Inr d \<and>
        map_of d ''action'' = Some (JStr ''command'')) \<and>
   (\<exists>d. coerce_agent_json (JDict []) = Inr d \<and>
        map_of d ''action'' = Some (JStr ''answer''))"
proof (intro conjI impI)
  assume h: "\<not> has_key m ''error'' \<and>
    map_of m ''action'' \<noteq> Some (JStr ''answer'') \<and>
    map_of m ''action'' \<noteq> Some (JStr ''command'')"
  have "\<exists>d. coerce_agent_json (JDict m) = Inr d"
    by (simp add: coerce_dict)
  then obtain d where d: "coerce_agent_json (JDict m) = Inr d" ..
  have "map_of d ''action'' = map_of (pre m) ''action''"
    using h d coerce_action by blast
  also have "\<dots> = Some (if nonblank_str (dict_get m ''command'')
                         then JStr ''command'' else JStr ''answer'')"
    using h by (simp add: pre_action)
  finally show "\<exists>d. coerce_agent_json (JDict m) = Inr d \<and>
           map_of d ''action'' =
             Some (JStr (if \<exists>s. map_of m ''command'' = Some (JStr s) \<and>
                               (\<exists>c \<in> set s. \<not> isspace c)
                         then ''command'' else ''answer''))"
    using d by (simp add: nonblank_str_iff)
next
  show "\<exists>d. coerce_agent_json (JDict [(''command'', JStr ''dir'')]) = Inr d \<and>
        map_of d ''action'' = Some (JStr ''command'')"
    by (simp add: coerce_agent_json_def fix_plan_def fix_action_def fix_expose_def
          command_branch_def setdefault_def dict_defs strip_def isspace_def)
next
  show "\<exists>d. coerce_agent_json (JDict []) = Inr d \<and>
        map_of d ''action'' = Some (JStr ''answer'')"
    by (simp add: coerce_agent_json_def fix_plan_def fix_action_def fix_expose_def
          answer_branch_def setdefault_def dict_defs schema_keys_def)
qed

text \<open>The theorem at a dictionary with an unrecognized action and a command.\<close>

theorem action_inference_witness:
  "\<exists>d. coerce_agent_json (JDict [(''action'', JStr ''run''), (''command'', JStr '' dir '')]) = Inr d \<and>
       map_of d ''action'' = Some (JStr ''command'')"
proof -
  let ?m = "[(''action'', JStr ''run''), (''command'', JStr '' dir '')]"
  have h: "\<not> has_key ?m ''error'' \<and>
    map_of ?m ''action'' \<noteq> Some (JStr ''answer'') \<and>
    map_of ?m ''action'' \<noteq> Some (JStr ''command'')"
    by (simp add: has_key_def)
  have c: "\<exists>s. map_of ?m ''command'' = Some (JStr s) \<and> (\<exists>c \<in> set s. \<not> isspace c)"
    by (simp add: isspace_def)
  show ?thesis
    using h c action_inference [of ?m] by (simp only: if_True) blast
qed

text \<open>
  Claim C1 says that a decision whose action resolves to \<^verbatim>\<open>answer\<close> has its
  \<^verbatim>\<open>command\<close> set to null, also when the source carried a command. The source uses
  \<^verbatim>\<open>coerced.setdefault("command", None)\<close>, which leaves an existing value alone:
  \<^verbatim>\<open>{"action": "answer", "command": "dir"}\<close> keeps the command \<^verbatim>\<open>dir\<close>.
\<close>

theorem answer_keeps_command_counterexample:
  "\<not> has_key [(''action'', JStr ''answer''), (''command'', JStr ''dir'')] ''error'' \<and>
   coerce_agent_json (JDict [(''action'', JStr ''answer''), (''command'', JStr ''dir'')]) =
     Inr [(''action'', JStr ''answer''), (''command'', JStr ''dir''), (''plan'', JList []),
          (''expose_to_user'', JBool True), (''data'', JNull)] \<and>
   JStr ''dir'' \<noteq> JNull"
  by (simp add: coerce_agent_json_def fix_plan_def fix_action_def fix_expose_def
        answer_branch_def setdefault_def dict_defs schema_keys_def)

text \<open>
  Claim C1, amended. For every dictionary without an \<^verbatim>\<open>error\<close> key whose normalized
  action is \<^verbatim>\<open>answer\<close>, the decision has a \<^verbatim>\<open>command\<close> key, and its value is what
  \<^verbatim>\<open>get("command")\<close> reads in the source object: null when the source has no
  \<^verbatim>\<open>command\<close> key, the value of the source otherwise.
\<close>

theorem answer_command_field:
  assumes "\<not> has_key m ''error''"
    and "coerce_agent_json (JDict m) = Inr d"
    and "map_of d ''action'' = Some (JStr ''answer'')"
  shows "map_of d ''command'' = Some (dict_get m ''command'')"
proof -
  have a: "map_of (pre m) ''action'' = Some (JStr ''answer'')"
    using assms coerce_action by simp
  then have "dict_get (pre m) ''action'' \<noteq> JStr ''command''" by (simp add: dict_defs)
  then have d: "d = answer_branch m (pre m)" using assms by (simp add: coerce_dict)
  have "map_of (pre m) ''command'' = map_of m ''command''" by (simp add: map_of_pre_other)
  then show ?thesis
    unfolding d map_of_answer_branch Let_def
    by (auto simp: dict_defs split: option.splits)
qed

text \<open>The amended claim at \<^verbatim>\<open>{"action": "answer", "command": "dir"}\<close>.\<close>

theorem answer_command_field_witness:
  "map_of [(''action'', JStr ''answer''), (''command'', JStr ''dir''), (''plan'', JList []),
          (''expose_to_user'', JBool True), (''data'', JNull)] ''command'' = Some (JStr ''dir'')"
proof -
  let ?m = "[(''action'', JStr ''answer''), (''command'', JStr ''dir'')]"
  let ?d = "[(''action'', JStr ''answer''), (''command'', JStr ''dir''), (''plan'', JList []),
          (''expose_to_user'', JBool True), (''data'', JNull)]"
  have 1: "\<not> has_key ?m ''error''" by (simp add: has_key_def)
  have 2: "coerce_agent_json (JDict ?m) = Inr ?d"
    by (simp add: coerce_agent_json_def fix_plan_def fix_action_def fix_expose_def
        answer_branch_def setdefault_def dict_defs schema_keys_def)
  have 3: "map_of ?d ''action'' = Some (JStr ''answer'')" by simp
  show ?thesis using answer_command_field [OF 1 2 3] by (simp add: dict_defs)
qed

lemma pre_fixed:
  assumes "canonical d"
  shows "pre d = d"
proof -
  from assms obtain xs b where
    p: "map_of d ''plan'' = Some (JList xs)" and
    a: "map_of d ''action'' = Some (JStr ''answer'') \<or> map_of d ''action'' = Some (JStr ''command'')" and
    e: "map_of d ''expose_to_user'' = Some (JBool b)"
    unfolding canonical_def by blast
  have 1: "fix_plan d = d" using p by (simp add: fix_plan_def dict_defs)
  have 2: "fix_action d = d" using a by (auto simp: fix_action_def dict_defs)
  have 3: "fix_expose d = d" using e by (simp add: fix_expose_def dict_defs)
  show ?thesis by (simp add: pre_def 1 2 3)
qed

lemma payload_command_branch: "payload_of (command_branch c) = payload_of c"
  by (simp add: payload_of_def command_branch_def Let_def payload_setdefault payload_dict_set
        schema_mem)

lemma payload_answer_branch: "payload_of (answer_branch m c) = payload_of c"
  by (simp add: payload_of_def answer_branch_def Let_def payload_setdefault payload_dict_set
        schema_mem)

lemma command_branch_fixed:
  "command_branch (command_branch c) = command_branch c"
proof -
  let ?d = "command_branch c"
  have c: "(\<exists>s. map_of ?d ''command'' = Some (JStr s)) \<or> map_of ?d ''command'' = Some JNull"
    unfolding map_of_command_branch Let_def by (auto simp: command_str_cases)
  have dd: "map_of ?d ''data'' \<noteq> None"
    unfolding map_of_command_branch Let_def by auto
  have 1: "(if \<not> is_str (dict_get ?d ''command'') then dict_set ?d ''command'' JNull else ?d) = ?d"
    using c by (auto simp: command_str_cases dict_set_same)
  show ?thesis
    unfolding command_branch_def [of ?d] Let_def 1 using dd by (rule setdefault_same)
qed

lemma answer_branch_alt:
  "answer_branch m c =
     setdefault
       (if \<not> has_key c ''data'' \<or> dict_get c ''data'' = JNull
        then dict_set c ''data''
               (if payload_of m \<noteq> [] then JDict (payload_of m) else dict_get c ''data'')
        else c)
       ''command'' JNull"
  by (simp add: answer_branch_def Let_def payload_of_def)

lemma answer_branch_fixed:
  assumes "payload_of c = payload_of m"
  shows "answer_branch (answer_branch m c) (answer_branch m c) = answer_branch m c"
proof -
  define d where "d = answer_branch m c"
  have cmd: "map_of d ''command'' \<noteq> None"
    unfolding d_def map_of_answer_branch Let_def by auto
  have dat: "map_of d ''data'' \<noteq> None"
    unfolding d_def map_of_answer_branch Let_def by auto
  have nul: "map_of d ''data'' = Some JNull \<Longrightarrow> payload_of m = []"
    unfolding d_def map_of_answer_branch Let_def by (auto split: if_splits)
  have pl: "payload_of d = payload_of m"
    using assms by (simp add: d_def payload_answer_branch)
  have 1: "(if \<not> has_key d ''data'' \<or> dict_get d ''data'' = JNull
        then dict_set d ''data''
               (if payload_of d \<noteq> [] then JDict (payload_of d) else dict_get d ''data'')
        else d) = d"
  proof (cases "map_of d ''data'' = Some JNull")
    case True
    then have "payload_of d = []" using nul pl by simp
    then show ?thesis
      using True by (simp add: dict_defs dict_set_same)
  next
    case False
    then show ?thesis using dat by (auto simp: dict_defs)
  qed
  have "answer_branch d d = setdefault d ''command'' JNull"
    by (simp only: answer_branch_alt [of d d] 1)
  also have "\<dots> = d" using cmd by (rule setdefault_same)
  finally show ?thesis unfolding d_def .
qed

lemma error_key_pre: "map_of (pre m) ''error'' = map_of m ''error''"
  by (simp add: map_of_pre_other)

lemma coerce_fixed_no_error:
  assumes "\<not> has_key m ''error''"
  shows "\<exists>d. coerce_agent_json (JDict m) = Inr d \<and> coerce_agent_json (JDict d) = Inr d"
proof (cases "dict_get (pre m) ''action'' = JStr ''command''")
  case True
  let ?d = "command_branch (pre m)"
  have d: "coerce_agent_json (JDict m) = Inr ?d" using assms True by (simp add: coerce_dict)
  have can: "canonical ?d" using True by (rule canonical_command_branch)
  have ne: "\<not> has_key ?d ''error''"
    using assms unfolding has_key_def map_of_command_branch Let_def
    by (simp add: error_key_pre)
  have act: "dict_get ?d ''action'' = JStr ''command''"
    using True unfolding dict_defs map_of_command_branch Let_def by simp
  have "coerce_agent_json (JDict ?d) = Inr (command_branch ?d)"
    using ne act by (simp add: coerce_dict pre_fixed [OF can])
  then show ?thesis using d by (simp add: command_branch_fixed)
next
  case False
  let ?d = "answer_branch m (pre m)"
  have d: "coerce_agent_json (JDict m) = Inr ?d" using assms False by (simp add: coerce_dict)
  have can: "canonical ?d" using False by (rule canonical_answer_branch)
  have ne: "\<not> has_key ?d ''error''"
    using assms unfolding has_key_def map_of_answer_branch Let_def
    by (simp add: error_key_pre)
  have act: "dict_get ?d ''action'' \<noteq> JStr ''command''"
    using False unfolding dict_defs map_of_answer_branch Let_def by simp
  have pp: "payload_of (pre m) = payload_of m" by (simp add: payload_of_def payload_pre)
  have "coerce_agent_json (JDict ?d) = Inr (answer_branch ?d ?d)"
    using ne act by (simp add: coerce_dict pre_fixed [OF can])
  then show ?thesis using d by (simp add: answer_branch_fixed [OF pp])
qed

lemma coerce_fixed_error:
  assumes "has_key d ''error''"
  shows "coerce_agent_json (JDict d) = Inr d"
  using assms by (simp add: coerce_dict)

text \<open>
  Claim C7. The normalizer is idempotent: on every input it returns a dictionary, and
  the normalizer applied to that dictionary returns the same dictionary, with the same
  keys in the same order and the same values.
\<close>

theorem coerce_agent_json_idempotent:
  "\<exists>d. coerce_agent_json x = Inr d \<and> coerce_agent_json (JDict d) = Inr d"
proof (cases "is_dict x")
  case False
  let ?d = "[(''error'', JStr ''invalid_json_type''), (''detail'', JStr (type_str x))]"
  have "coerce_agent_json x = Inr ?d"
    using False by (cases x) (simp_all add: coerce_agent_json_def)
  moreover have "coerce_agent_json (JDict ?d) = Inr ?d"
    by (rule coerce_fixed_error) (simp add: has_key_def)
  ultimately show ?thesis by blast
next
  case True
  then obtain m where x: "x = JDict m" by (cases x) simp_all
  show ?thesis
  proof (cases "has_key m ''error''")
    case True
    then show ?thesis unfolding x using coerce_fixed_error by blast
  next
    case False
    then show ?thesis unfolding x by (rule coerce_fixed_no_error)
  qed
qed

section \<open>Properties of the runner and of the envelope\<close>

lemma execute_command_null: "execute_command run JNull = Inr (rejected ''unsafe command'', [])"
  by (simp add: execute_command_def is_safe_command_def)

lemma execute_command_str:
  "\<exists>ex launched. execute_command run (JStr s) = Inr (ex, launched)"
  by (simp add: execute_command_def is_safe_command_str)

lemma is_str_iff: "is_str v \<longleftrightarrow> (\<exists>s. v = JStr s)"
  by (cases v) simp_all

lemma command_branch_command:
  "(\<exists>s. dict_get (command_branch c) ''command'' = JStr s) \<or>
   dict_get (command_branch c) ''command'' = JNull"
  unfolding dict_defs map_of_command_branch Let_def
  by (auto simp: is_str_iff split: option.splits)

lemma coerce_command_value:
  assumes "coerce_agent_json x = Inr aj" "\<not> has_key aj ''error''"
    "dict_get aj ''action'' = JStr ''command''"
  shows "(\<exists>s. dict_get aj ''command'' = JStr s) \<or> dict_get aj ''command'' = JNull"
proof -
  obtain m where x: "x = JDict m"
    using assms(1,2) by (cases x) (auto simp: coerce_agent_json_def has_key_def)
  have ne: "\<not> has_key m ''error''" using assms(1,2) unfolding x by (auto simp: coerce_dict split: if_splits)
  have "map_of aj ''action'' = Some (JStr ''command'')"
    using assms(3) by (auto simp: dict_defs split: option.splits)
  then have "dict_get (pre m) ''action'' = JStr ''command''"
    using coerce_action [OF ne assms(1) [unfolded x]] by (simp add: dict_defs)
  then have "aj = command_branch (pre m)" using assms(1) ne unfolding x by (simp add: coerce_dict)
  then show ?thesis using command_branch_command by simp
qed

lemma coerce_canonical:
  assumes "coerce_agent_json x = Inr aj" "\<not> has_key aj ''error''"
  shows "canonical aj"
proof -
  obtain m where x: "x = JDict m"
    using assms by (cases x) (auto simp: coerce_agent_json_def has_key_def)
  have ne: "\<not> has_key m ''error''" using assms unfolding x by (auto simp: coerce_dict split: if_splits)
  show ?thesis
    using assms(1) ne canonical_command_branch [of m] canonical_answer_branch [of m]
    unfolding x by (auto simp: coerce_dict split: if_splits)
qed

text \<open>
  Claim C10. Let the normalizer return a decision without an \<^verbatim>\<open>error\<close> key. Then
  \<^verbatim>\<open>process_agent_output\<close> returns an envelope (it does not raise) in which
  \<^verbatim>\<open>plan\<close> holds a list and \<^verbatim>\<open>expose_to_user\<close> holds a boolean; the envelope has
  the key \<^verbatim>\<open>execution\<close> exactly when the action of the decision is \<^verbatim>\<open>command\<close>,
  the key \<^verbatim>\<open>data\<close> exactly when it is \<^verbatim>\<open>answer\<close>, and never both.
\<close>

theorem process_agent_output_envelope:
  assumes "coerce_agent_json x = Inr aj" and "\<not> has_key aj ''error''"
  shows "\<exists>env launched. process_agent_output run x = Inr (env, launched) \<and>
     (\<exists>xs. map_of env ''plan'' = Some (JList xs)) \<and>
     (\<exists>b. map_of env ''expose_to_user'' = Some (JBool b)) \<and>
     (has_key env ''execution'' \<longleftrightarrow> dict_get aj ''action'' = JStr ''command'') \<and>
     (has_key env ''data'' \<longleftrightarrow> dict_get aj ''action'' = JStr ''answer'') \<and>
     \<not> (has_key env ''execution'' \<and> has_key env ''data'')"
proof -
  have can: "canonical aj" using assms by (rule coerce_canonical)
  then obtain xs b where
    p: "map_of aj ''plan'' = Some (JList xs)" and
    a: "map_of aj ''action'' = Some (JStr ''answer'') \<or> map_of aj ''action'' = Some (JStr ''command'')" and
    e: "map_of aj ''expose_to_user'' = Some (JBool b)"
    unfolding canonical_def by blast
  from a show ?thesis
  proof
    assume ans: "map_of aj ''action'' = Some (JStr ''answer'')"
    then show ?thesis
      using assms p e
      by (simp add: process_agent_output_def Let_def dict_defs)
  next
    assume cmd: "map_of aj ''action'' = Some (JStr ''command'')"
    then have act: "dict_get aj ''action'' = JStr ''command''" by (simp add: dict_defs)
    have "\<exists>ex launched. execute_command run (dict_get aj ''command'') = Inr (ex, launched)"
      using coerce_command_value [OF assms act] execute_command_str [of run]
        execute_command_null [of run] by auto
    then obtain ex launched where
      ex: "execute_command run (dict_get aj ''command'') = Inr (ex, launched)" by blast
    have "process_agent_output run x =
            Inr ([(''plan'', JList xs), (''expose_to_user'', JBool b), (''execution'', JDict ex)],
                 launched)"
      using assms p e act ex
      by (simp add: process_agent_output_def Let_def dict_item_def dict_get_or_def has_key_def)
    then show ?thesis using act by (simp add: has_key_def)
  qed
qed

text \<open>The theorem at \<^verbatim>\<open>{"command": "dir"}\<close>, with a process that exits with code 0.\<close>

theorem process_agent_output_envelope_witness:
  "\<exists>env launched.
     process_agent_output (\<lambda>s. Inr (0, ''out'', [])) (JDict [(''command'', JStr ''dir'')]) =
       Inr (env, launched) \<and>
     (\<exists>xs. map_of env ''plan'' = Some (JList xs)) \<and>
     (\<exists>b. map_of env ''expose_to_user'' = Some (JBool b)) \<and>
     has_key env ''execution'' \<and> \<not> has_key env ''data''"
proof -
  let ?aj = "[(''command'', JStr ''dir''), (''plan'', JList []), (''action'', JStr ''command''),
              (''expose_to_user'', JBool True), (''data'', JNull)]"
  have 1: "coerce_agent_json (JDict [(''command'', JStr ''dir'')]) = Inr ?aj"
    by (simp add: coerce_agent_json_def fix_plan_def fix_action_def fix_expose_def
          command_branch_def setdefault_def dict_defs strip_def isspace_def)
  have 2: "\<not> has_key ?aj ''error''" by (simp add: has_key_def)
  have 3: "dict_get ?aj ''action'' = JStr ''command''" by (simp add: dict_defs)
  show ?thesis
    using process_agent_output_envelope [OF 1 2, of "\<lambda>s. Inr (0, ''out'', [])"] 3
    by (simp only:) blast
qed

text \<open>A command that is absent, or a string that is blank, is rejected whatever the reason
  given, and no process is launched.\<close>

lemma execute_command_blank_rejected:
  assumes "command = JNull \<or> (\<exists>s. command = JStr s \<and> strip s = [])"
  shows "\<exists>reason. execute_command run command = Inr (rejected reason, [])"
proof -
  from assms consider "command = JNull" | s where "command = JStr s" "strip s = []" by blast
  then show ?thesis
  proof cases
    case 1
    then have "execute_command run command = Inr (rejected ''unsafe command'', [])"
      by (simp add: execute_command_def is_safe_command_def)
    then show ?thesis by blast
  next
    case 2
    obtain safe where safe: "is_safe_command (JStr s) = Inr safe"
      by (simp add: is_safe_command_str)
    show ?thesis
    proof (cases safe)
      case True
      then have "execute_command run command = Inr (rejected ''missing command'', [])"
        using 2 safe by (simp add: execute_command_def)
      then show ?thesis by blast
    next
      case False
      then have "execute_command run command = Inr (rejected ''unsafe command'', [])"
        using 2 safe by (simp add: execute_command_def)
      then show ?thesis by blast
    qed
  qed
qed

text \<open>
  Claim C2 says that an absent or blank command is rejected with the reason
  \<^verbatim>\<open>missing command\<close>. The source tests \<^verbatim>\<open>is_safe_command\<close> first, and the gate is
  false on \<^verbatim>\<open>None\<close> and on the empty string: both are rejected with the reason
  \<^verbatim>\<open>unsafe command\<close>, and the test for a missing command that follows is not reached.
  A command of two spaces passes the gate and is rejected as missing. The absent command
  is what \<^verbatim>\<open>process_agent_output\<close> passes for \<^verbatim>\<open>{"action": "command"}\<close>. No
  process is launched in any of these cases.
\<close>

theorem execute_command_absent_reason:
  "execute_command run JNull =
     Inr ([(''status'', JStr ''rejected''), (''reason'', JStr ''unsafe command'')], []) \<and>
   execute_command run (JStr []) =
     Inr ([(''status'', JStr ''rejected''), (''reason'', JStr ''unsafe command'')], []) \<and>
   execute_command run (JStr ''  '') =
     Inr ([(''status'', JStr ''rejected''), (''reason'', JStr ''missing command'')], []) \<and>
   process_agent_output run (JDict [(''action'', JStr ''command'')]) =
     Inr ([(''plan'', JList []), (''expose_to_user'', JBool True),
           (''execution'', JDict [(''status'', JStr ''rejected''),
                                  (''reason'', JStr ''unsafe command'')])], [])"
proof (intro conjI)
  show "execute_command run JNull =
     Inr ([(''status'', JStr ''rejected''), (''reason'', JStr ''unsafe command'')], [])"
    by (simp add: execute_command_def is_safe_command_def rejected_def)
  show "execute_command run (JStr []) =
     Inr ([(''status'', JStr ''rejected''), (''reason'', JStr ''unsafe command'')], [])"
    by (simp add: execute_command_def is_safe_command_str rejected_def)
  show "execute_command run (JStr ''  '') =
     Inr ([(''status'', JStr ''rejected''), (''reason'', JStr ''missing command'')], [])"
    by (simp add: execute_command_def is_safe_command_str rejected_def banned_def strip_def
          isspace_def)
  show "process_agent_output run (JDict [(''action'', JStr ''command'')]) =
     Inr ([(''plan'', JList []), (''expose_to_user'', JBool True),
           (''execution'', JDict [(''status'', JStr ''rejected''),
                                  (''reason'', JStr ''unsafe command'')])], [])"
    by (simp add: process_agent_output_def coerce_agent_json_def fix_plan_def fix_action_def
          fix_expose_def command_branch_def setdefault_def dict_defs execute_command_def
          is_safe_command_def rejected_def)
qed

section \<open>Properties of the extractor\<close>

text \<open>The Python stack, reversed, is the stack of the design.\<close>

lemma rev_py_step: "rev (py_step stack c) = stack_step (rev stack) c"
proof (cases stack rule: rev_cases)
  case Nil
  then show ?thesis by (simp add: py_step_def stack_step_def pairs_def)
next
  case (snoc ys y)
  then show ?thesis by (simp add: py_step_def stack_step_def pairs_def)
qed

lemma py_step_Nil_iff: "py_step stack c = [] \<longleftrightarrow> stack_step (rev stack) c = []"
  using rev_py_step [of stack c] by (metis rev_is_Nil_conv)

lemma scan_Cons:
  assumes "stack \<noteq> []"
  shows "scan loads s start stack (i # is) =
           (if py_step stack (s ! i) = [] then outcome loads (substr s start (Suc i))
            else scan loads s start (py_step stack (s ! i)) is)"
  using assms by (auto simp: py_step_def outcome_def Let_def)

lemma substr_Cons:
  "i \<le> j \<Longrightarrow> j < length s \<Longrightarrow> substr s i (Suc j) = s ! i # substr s (Suc i) (Suc j)"
  by (simp add: substr_def Cons_nth_drop_Suc [symmetric] Suc_diff_le)

lemma substr_empty: "substr s i i = []"
  by (simp add: substr_def)

lemma scan_found:
  assumes "stack \<noteq> []" "i \<le> b" "b < length s"
    and "foldl stack_step (rev stack) (substr s i (b + 1)) = []"
    and "\<forall>j \<in> {i..<b}. foldl stack_step (rev stack) (substr s i (j + 1)) \<noteq> []"
  shows "scan loads s start stack [i..<length s] = outcome loads (substr s start (b + 1))"
  using assms
proof (induction "b - i" arbitrary: i stack)
  case 0
  then have ib: "i = b" by simp
  have "stack_step (rev stack) (s ! b) = []"
    using "0.prems"(3,4) unfolding ib by (simp add: substr_Cons substr_empty)
  then have "py_step stack (s ! b) = []" by (simp add: py_step_Nil_iff)
  moreover have "[b..<length s] = b # [Suc b..<length s]"
    using "0.prems"(3) by (simp add: upt_conv_Cons)
  ultimately show ?case using "0.prems"(1) unfolding ib by (simp add: scan_Cons del: scan.simps)
next
  case (Suc n)
  then have lt: "i < b" by simp
  let ?stack' = "py_step stack (s ! i)"
  have il: "i < length s" using lt Suc.prems(3) by simp
  have "foldl stack_step (rev stack) (substr s i (i + 1)) \<noteq> []"
    using Suc.prems(5) lt by simp
  then have ne: "?stack' \<noteq> []"
    using il by (simp add: substr_Cons substr_empty py_step_Nil_iff)
  have up: "[i..<length s] = i # [Suc i..<length s]" using il by (simp add: upt_conv_Cons)
  have 1: "foldl stack_step (rev ?stack') (substr s (Suc i) (b + 1)) = []"
    using Suc.prems(4) lt Suc.prems(3) by (simp add: substr_Cons rev_py_step)
  have 2: "\<forall>j \<in> {Suc i..<b}. foldl stack_step (rev ?stack') (substr s (Suc i) (j + 1)) \<noteq> []"
  proof
    fix j assume j: "j \<in> {Suc i..<b}"
    then have "foldl stack_step (rev stack) (substr s i (j + 1)) \<noteq> []"
      using Suc.prems(5) by simp
    moreover have "substr s i (Suc j) = s ! i # substr s (Suc i) (Suc j)"
      using j Suc.prems(3) by (intro substr_Cons) simp_all
    ultimately show "foldl stack_step (rev ?stack') (substr s (Suc i) (j + 1)) \<noteq> []"
      by (simp add: rev_py_step)
  qed
  have "scan loads s start ?stack' [Suc i..<length s] = outcome loads (substr s start (b + 1))"
    using Suc.hyps(2) lt Suc.prems(3) ne 1 2 by (intro Suc.hyps(1)) simp_all
  then show ?case using Suc.prems(1) ne unfolding up by (simp add: scan_Cons del: scan.simps)
qed

lemma scan_exhausted:
  assumes "stack \<noteq> []" "i \<le> length s"
    and "\<forall>j \<in> {i..<length s}. foldl stack_step (rev stack) (substr s i (j + 1)) \<noteq> []"
  shows "scan loads s start stack [i..<length s] = Exhausted"
  using assms
proof (induction "length s - i" arbitrary: i stack)
  case 0
  then show ?case by simp
next
  case (Suc n)
  then have il: "i < length s" by simp
  let ?stack' = "py_step stack (s ! i)"
  have "foldl stack_step (rev stack) (substr s i (i + 1)) \<noteq> []"
    using Suc.prems(3) il by simp
  then have ne: "?stack' \<noteq> []"
    using il by (simp add: substr_Cons substr_empty py_step_Nil_iff)
  have up: "[i..<length s] = i # [Suc i..<length s]" using il by (simp add: upt_conv_Cons)
  have 2: "\<forall>j \<in> {Suc i..<length s}. foldl stack_step (rev ?stack') (substr s (Suc i) (j + 1)) \<noteq> []"
  proof
    fix j assume j: "j \<in> {Suc i..<length s}"
    then have "foldl stack_step (rev stack) (substr s i (j + 1)) \<noteq> []"
      using Suc.prems(3) by simp
    moreover have "substr s i (Suc j) = s ! i # substr s (Suc i) (Suc j)"
      using j by (intro substr_Cons) simp_all
    ultimately show "foldl stack_step (rev ?stack') (substr s (Suc i) (j + 1)) \<noteq> []"
      by (simp add: rev_py_step)
  qed
  have "scan loads s start ?stack' [Suc i..<length s] = Exhausted"
    using Suc.hyps(2) il ne 2 by (intro Suc.hyps(1)) simp_all
  then show ?case using Suc.prems(1) ne unfolding up by (simp add: scan_Cons del: scan.simps)
qed

lemma stack_after_opener:
  assumes "a \<le> j" "j < length s" "s ! a = CHR ''{'' \<or> s ! a = CHR ''[''"
  shows "stack_after (substr s a (Suc j)) =
           foldl stack_step (rev [pairs (s ! a)]) (substr s (Suc a) (Suc j))"
  using assms by (auto simp: stack_after_def substr_Cons stack_step_def pairs_def)

lemma scan_first:
  assumes "a < length s" "s ! a = CHR ''{'' \<or> s ! a = CHR ''[''"
  shows "scan loads s a [] [a..<length s] = scan loads s a [pairs (s ! a)] [Suc a..<length s]"
  using assms by (auto simp: upt_conv_Cons)

lemma scan_balanced:
  assumes "balanced_span s a b"
  shows "scan loads s a [] [a..<length s] = outcome loads (substr s a (Suc b))"
proof -
  from assms have ab: "a \<le> b" and bl: "b < length s"
    and op: "s ! a = CHR ''{'' \<or> s ! a = CHR ''[''"
    and e: "stack_after (substr s a (Suc b)) = []"
    and ne: "\<forall>j \<in> {a..<b}. stack_after (substr s a (Suc j)) \<noteq> []"
    by (simp_all add: balanced_span_def)
  have "stack_after (substr s a (Suc a)) \<noteq> []"
    using op ab bl by (auto simp: stack_after_opener substr_empty)
  then have lt: "a < b" using e ab by (cases "a = b") auto
  have 1: "foldl stack_step (rev [pairs (s ! a)]) (substr s (Suc a) (b + 1)) = []"
    using e ab bl op by (simp add: stack_after_opener)
  have 2: "\<forall>j \<in> {Suc a..<b}.
             foldl stack_step (rev [pairs (s ! a)]) (substr s (Suc a) (j + 1)) \<noteq> []"
  proof
    fix j assume j: "j \<in> {Suc a..<b}"
    then have "stack_after (substr s a (Suc j)) \<noteq> []" using ne by simp
    then show "foldl stack_step (rev [pairs (s ! a)]) (substr s (Suc a) (j + 1)) \<noteq> []"
      using j bl op by (simp add: stack_after_opener)
  qed
  have "scan loads s a [pairs (s ! a)] [Suc a..<length s] = outcome loads (substr s a (b + 1))"
    using lt bl 1 2 by (intro scan_found) simp_all
  then show ?thesis using ab bl op by (simp add: scan_first)
qed

lemma scan_unbalanced:
  assumes "a < length s" "s ! a = CHR ''{'' \<or> s ! a = CHR ''[''"
    and "\<forall>b. \<not> balanced_span s a b"
  shows "scan loads s a [] [a..<length s] = Exhausted"
proof -
  define P where "P j \<longleftrightarrow> a \<le> j \<and> j < length s \<and> stack_after (substr s a (Suc j)) = []" for j
  have noP: "\<not> P j" for j
  proof
    assume "P j"
    define m where "m = (LEAST k. P k)"
    have Pm: "P m" unfolding m_def using \<open>P j\<close> by (rule LeastI)
    have least: "\<not> P k" if "k < m" for k
      using that unfolding m_def by (rule not_less_Least)
    have "stack_after (substr s a (k + 1)) \<noteq> []" if "k \<in> {a..<m}" for k
    proof -
      from that have "k < m" "a \<le> k" by simp_all
      moreover have "k < length s" using \<open>k < m\<close> Pm by (simp add: P_def)
      ultimately show ?thesis using least [of k] by (simp add: P_def)
    qed
    then have "balanced_span s a m"
      using Pm assms(2) by (simp add: balanced_span_def P_def)
    then show False using assms(3) by blast
  qed
  have ne: "\<forall>j \<in> {Suc a..<length s}.
             foldl stack_step (rev [pairs (s ! a)]) (substr s (Suc a) (j + 1)) \<noteq> []"
  proof
    fix j assume j: "j \<in> {Suc a..<length s}"
    then have aj: "a \<le> j" and jl: "j < length s" by simp_all
    have "stack_after (substr s a (Suc j)) \<noteq> []"
      using noP [of j] aj jl by (simp add: P_def)
    then show "foldl stack_step (rev [pairs (s ! a)]) (substr s (Suc a) (j + 1)) \<noteq> []"
      using stack_after_opener [OF aj jl assms(2)] by simp
  qed
  have "scan loads s a [pairs (s ! a)] [Suc a..<length s] = Exhausted"
    using assms(1) ne by (intro scan_exhausted) simp_all
  then show ?thesis using assms(1,2) by (simp add: scan_first)
qed

lemma balanced_span_unique: "balanced_span s a b \<Longrightarrow> balanced_span s a b' \<Longrightarrow> b = b'"
proof (rule ccontr)
  assume 1: "balanced_span s a b" and 2: "balanced_span s a b'" and "b \<noteq> b'"
  then consider "b < b'" | "b' < b" by linarith
  then show False
  proof cases
    case 1
    then show ?thesis using \<open>balanced_span s a b\<close> \<open>balanced_span s a b'\<close>
      by (auto simp: balanced_span_def)
  next
    case 2
    then show ?thesis using \<open>balanced_span s a b\<close> \<open>balanced_span s a b'\<close>
      by (auto simp: balanced_span_def)
  qed
qed

lemma set_starts: "set (starts s) = {i. i < length s \<and> (s ! i = CHR ''{'' \<or> s ! i = CHR ''['')}"
  by (auto simp: starts_def)

lemma try_starts_skip:
  assumes "\<forall>x \<in> set xs. \<forall>v. scan loads s x [] [x..<length s] \<noteq> Return v"
  shows "try_starts loads s (xs @ ys) = try_starts loads s ys"
  using assms by (induction xs) (auto split: scan_result.splits)

lemma try_starts_none:
  assumes "\<forall>x \<in> set xs. \<forall>v. scan loads s x [] [x..<length s] \<noteq> Return v"
  shows "try_starts loads s xs = JNull"
  using try_starts_skip [OF assms, of "[]"] by simp

lemma outcome_Return: "outcome loads t = Return v \<longleftrightarrow> loads t = Inr v"
  by (simp add: outcome_def split: sum.splits)

text \<open>What the walk from one start position gives.\<close>

lemma scan_start_Return:
  assumes "x \<in> set (starts s)" "scan loads s x [] [x..<length s] = Return v"
  shows "\<exists>b. balanced_span s x b \<and> loads (substr s x (b + 1)) = Inr v"
proof (cases "\<exists>b. balanced_span s x b")
  case True
  then obtain b where b: "balanced_span s x b" by blast
  then show ?thesis using assms(2) by (auto simp: scan_balanced outcome_Return)
next
  case False
  then have "scan loads s x [] [x..<length s] = Exhausted"
    using assms(1) by (intro scan_unbalanced) (auto simp: set_starts)
  then show ?thesis using assms(2) by simp
qed

lemma parses_iff: "parses loads t \<longleftrightarrow> (\<exists>v. loads t = Inr v)"
  by (simp add: parses_def split: sum.splits)

lemma not_parses_iff: "\<not> parses loads t \<longleftrightarrow> (\<exists>e. loads t = Inl e)"
  by (simp add: parses_def split: sum.splits)

lemma balanced_span_start: "balanced_span s a b \<Longrightarrow> a \<in> set (starts s)"
  by (auto simp: set_starts balanced_span_def)

text \<open>The start positions are tried from left to right: those tried before \<open>a\<close> are
  the ones below \<open>a\<close>.\<close>

lemma starts_sorted: "sorted (starts s)"
  unfolding starts_def by (rule sorted_wrt_filter) simp

lemma starts_distinct: "distinct (starts s)"
  by (simp add: starts_def)

lemma starts_before:
  assumes "starts s = xs @ a # ys" "x \<in> set xs"
  shows "x < a"
proof -
  have "sorted (xs @ a # ys)" using starts_sorted [of s] assms(1) by simp
  then have "x \<le> a" using assms(2) by (simp add: sorted_append)
  moreover have "distinct (xs @ a # ys)" using starts_distinct [of s] assms(1) by simp
  then have "x \<noteq> a" using assms(2) by auto
  ultimately show ?thesis by simp
qed

text \<open>
  Claim C3. A balanced span is read as the design defines it: the span from an opening
  bracket to the first position at which the stack of expected closers is empty. If a
  string has a balanced span that parses, and no balanced span that starts further left
  parses, the extractor returns the parsed value of that span; the spans nested in it
  and the spans to its right do not matter. This covers a string with exactly one
  balanced span that parses, and a string with one value, nested or not, among prose.
  If a string has no balanced span, or none of its balanced spans parses, the extractor
  returns \<^verbatim>\<open>None\<close>.
\<close>

theorem extract_json_from_text_correct:
  "(balanced_span s a b \<and> loads (substr s a (b + 1)) = Inr v \<and>
    (\<forall>a' \<in> {..<a}. \<forall>b' \<in> {..<length s}.
        balanced_span s a' b' \<longrightarrow> \<not> parses loads (substr s a' (b' + 1)))
      \<longrightarrow> extract_json_from_text loads s = v) \<and>
   ((\<forall>a \<in> {..<length s}. \<forall>b \<in> {..<length s}.
        balanced_span s a b \<longrightarrow> \<not> parses loads (substr s a (b + 1)))
      \<longrightarrow> extract_json_from_text loads s = JNull)"
proof (intro conjI impI)
  assume h: "balanced_span s a b \<and> loads (substr s a (b + 1)) = Inr v \<and>
    (\<forall>a' \<in> {..<a}. \<forall>b' \<in> {..<length s}.
        balanced_span s a' b' \<longrightarrow> \<not> parses loads (substr s a' (b' + 1)))"
  then have bal: "balanced_span s a b" and v: "loads (substr s a (b + 1)) = Inr v" by simp_all
  have "a \<in> set (starts s)" using bal by (rule balanced_span_start)
  then obtain xs ys where sp: "starts s = xs @ a # ys"
    using split_list [of a "starts s"] by blast
  have skip: "\<forall>x \<in> set xs. \<forall>w. scan loads s x [] [x..<length s] \<noteq> Return w"
  proof (intro ballI allI notI)
    fix x w assume x: "x \<in> set xs" and r: "scan loads s x [] [x..<length s] = Return w"
    have "x \<in> set (starts s)" using x sp by simp
    then obtain b' where b': "balanced_span s x b'" "loads (substr s x (b' + 1)) = Inr w"
      using scan_start_Return r by blast
    have "x < a" using sp x by (rule starts_before)
    moreover have "b' < length s" using b'(1) by (simp add: balanced_span_def)
    ultimately have "\<not> parses loads (substr s x (b' + 1))" using h b'(1) by simp
    then show False using b'(2) by (simp add: parses_def)
  qed
  have "scan loads s a [] [a..<length s] = Return v"
    using bal v by (simp add: scan_balanced outcome_def)
  then have "try_starts loads s (a # ys) = v" by simp
  then show "extract_json_from_text loads s = v"
    unfolding extract_json_from_text_def sp using try_starts_skip [OF skip] by simp
next
  assume h: "\<forall>a \<in> {..<length s}. \<forall>b \<in> {..<length s}.
        balanced_span s a b \<longrightarrow> \<not> parses loads (substr s a (b + 1))"
  have "\<forall>x \<in> set (starts s). \<forall>w. scan loads s x [] [x..<length s] \<noteq> Return w"
  proof (intro ballI allI notI)
    fix x w assume x: "x \<in> set (starts s)" and r: "scan loads s x [] [x..<length s] = Return w"
    then obtain b' where b': "balanced_span s x b'" "loads (substr s x (b' + 1)) = Inr w"
      using scan_start_Return by blast
    then have "x < length s" "b' < length s" by (simp_all add: balanced_span_def)
    then have "\<not> parses loads (substr s x (b' + 1))" using h b'(1) by blast
    then show False using b'(2) by (simp add: parses_def)
  qed
  then show "extract_json_from_text loads s = JNull"
    unfolding extract_json_from_text_def by (rule try_starts_none)
qed

text \<open>The theorem at a nested value among prose, where the inner span parses too and the
  outer value is returned; at a value inside a bracketed remark, where the span of the
  remark starts further left and does not parse; and at a text whose only span does not
  parse.\<close>

theorem extract_json_from_text_correct_witness:
  "extract_json_from_text bracket_loads ''x [[]] y'' = JList [JList []] \<and>
   extract_json_from_text bracket_loads ''[see {} ok]'' = JDict [] \<and>
   extract_json_from_text bracket_loads ''so [x] no'' = JNull"
proof -
  let ?s = "''x [[]] y''" and ?r = "''[see {} ok]''" and ?t = "''so [x] no''"
  have s25: "balanced_span ?s 2 5"
    by (simp add: balanced_span_def stack_after_def stack_step_def substr_def
          atLeastLessThan_upt)
  have sv: "bracket_loads (substr ?s 2 (5 + 1)) = Inr (JList [JList []])"
    by (simp add: bracket_loads_def substr_def)
  have "starts ?s = [2, 3]" by (simp add: starts_def)
  then have ss: "set (starts ?s) = {2, 3}" by simp
  have su: "\<forall>a' \<in> {..<2}. \<forall>b' \<in> {..<length ?s}.
        balanced_span ?s a' b' \<longrightarrow> \<not> parses bracket_loads (substr ?s a' (b' + 1))"
  proof (intro ballI impI)
    fix a' b'
    assume a': "a' \<in> {..<2::nat}" and b: "balanced_span ?s a' b'"
    have "a' \<in> {2, 3}" using balanced_span_start [OF b] ss by simp
    then show "\<not> parses bracket_loads (substr ?s a' (b' + 1))" using a' by auto
  qed
  have 1: "extract_json_from_text bracket_loads ?s = JList [JList []]"
    using s25 sv su
      extract_json_from_text_correct [of ?s 2 5 bracket_loads "JList [JList []]"]
    by blast
  have r010: "balanced_span ?r 0 10"
    by code_simp
  have r56: "balanced_span ?r 5 6"
    by (simp add: balanced_span_def stack_after_def stack_step_def substr_def
          atLeastLessThan_upt)
  have rv: "bracket_loads (substr ?r 5 (6 + 1)) = Inr (JDict [])"
    by (simp add: bracket_loads_def substr_def)
  have rn: "\<not> parses bracket_loads (substr ?r 0 (10 + 1))"
    by (simp add: parses_def bracket_loads_def substr_def)
  have "starts ?r = [0, 5]" by (simp add: starts_def)
  then have rs: "set (starts ?r) = {0, 5}" by simp
  have ru: "\<forall>a' \<in> {..<5}. \<forall>b' \<in> {..<length ?r}.
        balanced_span ?r a' b' \<longrightarrow> \<not> parses bracket_loads (substr ?r a' (b' + 1))"
  proof (intro ballI impI)
    fix a' b'
    assume a': "a' \<in> {..<5::nat}" and b: "balanced_span ?r a' b'"
    have "a' \<in> {0, 5}" using balanced_span_start [OF b] rs by simp
    then have "a' = 0" using a' by auto
    moreover from this have "b' = 10" using b r010 balanced_span_unique by blast
    ultimately show "\<not> parses bracket_loads (substr ?r a' (b' + 1))" using rn by simp
  qed
  have 2: "extract_json_from_text bracket_loads ?r = JDict []"
    using r56 rv ru extract_json_from_text_correct [of ?r 5 6 bracket_loads "JDict []"]
    by blast
  have t35: "balanced_span ?t 3 5"
    by (simp add: balanced_span_def stack_after_def stack_step_def substr_def
          atLeastLessThan_upt)
  have np: "\<not> parses bracket_loads (substr ?t 3 (5 + 1))"
    by (simp add: parses_def bracket_loads_def substr_def)
  have "starts ?t = [3]" by (simp add: starts_def)
  then have st: "set (starts ?t) = {3}" by simp
  have n: "\<forall>a \<in> {..<length ?t}. \<forall>b \<in> {..<length ?t}.
        balanced_span ?t a b \<longrightarrow> \<not> parses bracket_loads (substr ?t a (b + 1))"
  proof (intro ballI impI)
    fix a b
    assume b: "balanced_span ?t a b"
    then have "a = 3" using balanced_span_start [OF b] st by simp
    moreover from this have "b = 5" using b t35 balanced_span_unique by blast
    ultimately show "\<not> parses bracket_loads (substr ?t a (b + 1))" using np by simp
  qed
  have 3: "extract_json_from_text bracket_loads ?t = JNull"
    using n extract_json_from_text_correct [of ?t 0 0 bracket_loads JNull] by blast
  from 1 2 3 show ?thesis by blast
qed

section \<open>Properties of the retry loop\<close>

lemma ask_loop_calls: "snd (ask_loop loads llm c rounds last_error) \<le> c + length rounds"
proof (induction rounds arbitrary: c last_error)
  case Nil
  then show ?case by simp
next
  case (Cons r rounds)
  show ?case
  proof (cases "loads (llm c)")
    case (Inr v)
    then show ?thesis by simp
  next
    case (Inl e)
    show ?thesis
    proof (cases "extract_json_from_text loads (llm c) = JNull")
      case True
      then show ?thesis using Inl Cons.IH [of "Suc c" "JStr e"] by simp
    next
      case False
      then show ?thesis using Inl by simp
    qed
  qed
qed

lemma ask_loop_step_fail:
  assumes "\<not> succeeds loads (llm c)"
  shows "\<exists>e. loads (llm c) = Inl e \<and>
             ask_loop loads llm c (r # rounds) last_error = ask_loop loads llm (Suc c) rounds (JStr e)"
  using assms by (cases "loads (llm c)") (simp_all add: succeeds_def parses_def)

lemma ask_loop_step_success:
  assumes "succeeds loads (llm c)"
  shows "ask_loop loads llm c (r # rounds) last_error = (value_of loads (llm c), Suc c)"
  using assms by (cases "loads (llm c)") (simp_all add: succeeds_def parses_def value_of_def)

lemma ask_loop_first_success:
  assumes "k < length rounds" "succeeds loads (llm (c + k))"
    and "\<forall>j < k. \<not> succeeds loads (llm (c + j))"
  shows "ask_loop loads llm c rounds last_error = (value_of loads (llm (c + k)), Suc (c + k))"
  using assms
proof (induction rounds arbitrary: c k last_error)
  case Nil
  then show ?case by simp
next
  case (Cons r rounds)
  show ?case
  proof (cases k)
    case 0
    then show ?thesis using Cons.prems(2) by (simp add: ask_loop_step_success del: ask_loop.simps)
  next
    case (Suc k')
    then have "\<not> succeeds loads (llm c)" using Cons.prems(3) by force
    then obtain e where
      st: "ask_loop loads llm c (r # rounds) last_error = ask_loop loads llm (Suc c) rounds (JStr e)"
      using ask_loop_step_fail by blast
    have "\<forall>j < k'. \<not> succeeds loads (llm (Suc c + j))"
      using Cons.prems(3) Suc by (metis Suc_less_eq add_Suc_shift)
    then have "ask_loop loads llm (Suc c) rounds (JStr e) =
                 (value_of loads (llm (Suc c + k')), Suc (Suc c + k'))"
      using Cons.prems(1,2) Suc by (intro Cons.IH) simp_all
    then show ?thesis using st Suc by simp
  qed
qed

lemma ask_loop_all_fail:
  assumes "\<forall>j < Suc n. \<not> succeeds loads (llm (c + j))" "length rounds = Suc n"
  shows "\<exists>e. loads (llm (c + n)) = Inl e \<and>
             ask_loop loads llm c rounds last_error = (invalid_json (JStr e), Suc (c + n))"
  using assms
proof (induction n arbitrary: c rounds last_error)
  case 0
  then obtain r where rounds: "rounds = [r]" by (cases rounds) simp_all
  have "\<not> succeeds loads (llm c)" using "0.prems"(1) by force
  then show ?case unfolding rounds using ask_loop_step_fail [of loads llm c r "[]" last_error] by auto
next
  case (Suc n)
  then obtain r rounds' where rounds: "rounds = r # rounds'" and len: "length rounds' = Suc n"
    by (cases rounds) simp_all
  have "\<not> succeeds loads (llm c)" using Suc.prems(1) by force
  then obtain e where
    st: "ask_loop loads llm c (r # rounds') last_error = ask_loop loads llm (Suc c) rounds' (JStr e)"
    using ask_loop_step_fail by blast
  have "\<forall>j < Suc n. \<not> succeeds loads (llm (Suc c + j))"
    using Suc.prems(1) by (metis Suc_less_eq add_Suc_shift)
  then obtain e' where "loads (llm (Suc c + n)) = Inl e'"
    "ask_loop loads llm (Suc c) rounds' (JStr e) = (invalid_json (JStr e'), Suc (Suc c + n))"
    using Suc.IH [OF _ len] by blast
  then show ?case unfolding rounds st by simp
qed

text \<open>
  Claim C5. With the default bound of three, \<^verbatim>\<open>ask_model\<close> calls the generator at
  most three times. It returns the value of the first attempt that succeeds (the raw
  text parses directly or the extractor finds a value), after exactly that many calls.
  If all three attempts fail, it returns the error \<^verbatim>\<open>invalid_json\<close> whose detail is
  the message of the parse failure of the third attempt.
\<close>

theorem ask_model_retries:
  "snd (ask_model loads llm 3) \<le> 3 \<and>
   (k < 3 \<and> succeeds loads (llm k) \<and> (\<forall>j \<in> {..<k}. \<not> succeeds loads (llm j))
      \<longrightarrow> ask_model loads llm 3 = (value_of loads (llm k), Suc k)) \<and>
   ((\<forall>j \<in> {..<3}. \<not> succeeds loads (llm j))
      \<longrightarrow> (\<exists>e. loads (llm 2) = Inl e \<and>
               ask_model loads llm 3 =
                 (JDict [(''error'', JStr ''invalid_json''), (''detail'', JStr e)], 3)))"
proof (intro conjI impI)
  show "snd (ask_model loads llm 3) \<le> 3"
    using ask_loop_calls [of loads llm 0 "[0..<3]" JNull] by (simp add: ask_model_def)
next
  assume "k < 3 \<and> succeeds loads (llm k) \<and> (\<forall>j \<in> {..<k}. \<not> succeeds loads (llm j))"
  then show "ask_model loads llm 3 = (value_of loads (llm k), Suc k)"
    using ask_loop_first_success [of k "[0..<3]" loads llm 0 JNull]
    by (simp add: ask_model_def)
next
  assume "\<forall>j \<in> {..<3}. \<not> succeeds loads (llm j)"
  then have "\<forall>j < Suc 2. \<not> succeeds loads (llm (0 + j))" by (simp add: numeral_3_eq_3)
  then show "\<exists>e. loads (llm 2) = Inl e \<and>
               ask_model loads llm 3 =
                 (JDict [(''error'', JStr ''invalid_json''), (''detail'', JStr e)], 3)"
    using ask_loop_all_fail [of 2 loads llm 0 "[0..<3]" JNull]
    by (simp add: ask_model_def invalid_json_def numeral_2_eq_2 numeral_3_eq_3)
qed

text \<open>The theorem at a generator whose second answer holds a value and at a generator
  that never answers with one.\<close>

theorem ask_model_retries_witness:
  "ask_model bracket_loads (\<lambda>k. if k = 1 then ''x {} '' else ''zz'') 3 = (JDict [], 2) \<and>
   ask_model bracket_loads (\<lambda>k. ''zz'') 3 =
     (JDict [(''error'', JStr ''invalid_json''), (''detail'', JStr ''Expecting value'')], 3)"
proof -
  let ?llm = "\<lambda>k::nat. if k = 1 then ''x {} '' else ''zz''"
  have z: "extract_json_from_text bracket_loads ''zz'' = JNull"
    by (simp add: extract_json_from_text_def starts_def)
  have x: "extract_json_from_text bracket_loads ''x {} '' = JDict []"
    by code_simp
  have f: "\<not> succeeds bracket_loads ''zz''"
    using z by (simp add: succeeds_def parses_def bracket_loads_def)
  have s: "succeeds bracket_loads ''x {} ''"
    using x by (simp add: succeeds_def)
  have v: "value_of bracket_loads ''x {} '' = JDict []"
    using x by (simp add: value_of_def bracket_loads_def)
  have h1: "(1::nat) < 3 \<and> succeeds bracket_loads (?llm 1) \<and>
            (\<forall>j \<in> {..<1}. \<not> succeeds bracket_loads (?llm j))"
    using f s by simp
  have 1: "ask_model bracket_loads ?llm 3 = (JDict [], 2)"
    using h1 v ask_model_retries [of bracket_loads ?llm 1] by simp
  have h2: "\<forall>j \<in> {..<3::nat}. \<not> succeeds bracket_loads ((\<lambda>k. ''zz'') j)"
    using f by simp
  have e: "bracket_loads ''zz'' = Inl ''Expecting value''" by (simp add: bracket_loads_def)
  have 2: "ask_model bracket_loads (\<lambda>k. ''zz'') 3 =
     (JDict [(''error'', JStr ''invalid_json''), (''detail'', JStr ''Expecting value'')], 3)"
    using h2 e ask_model_retries [of bracket_loads "\<lambda>k. ''zz''" 0] by auto
  from 1 2 show ?thesis ..
qed

end
